theory Spec2Isabelle
  imports Complex_Main "HOL-Library.Product_Lexorder" "HOL-Library.Monad_Syntax"
begin

section \<open>Polyhedron geometry pipeline: midradius, edge extraction, normalisation, codec\<close>

text \<open>
  The scripts \<^verbatim>\<open>calculate_midradius.py\<close> and \<^verbatim>\<open>convert_obj_to_format.py\<close> are embedded
  as HOL functions. Python floats are modelled by \<^typ>\<open>real\<close>: every arithmetic
  operation is the exact one, so rounding error, overflow and NaN are outside the model.
  The normaliser is the exception: it branches on a computed distance being positive, which
  rounding decides, so its arithmetic is a parameter, with the exact and the rounded
  (binary64) operations as instances.
  A point is a Python list of floats (\<^typ>\<open>real list\<close>), an edge a pair of Python
  integers, and every implicit raise of the source (an index out of range, \<^verbatim>\<open>float()\<close> on
  a malformed literal) is a value \<open>Inl err\<close> of the result type.
\<close>

subsection \<open>Python errors and indexing\<close>

datatype py_error = IndexError | ValueError

type_synonym edge = "int \<times> int"

text \<open>\<^verbatim>\<open>xs[i]\<close> for a Python integer \<open>i\<close>: negative indices count from the end.\<close>

definition py_index :: "'a list \<Rightarrow> int \<Rightarrow> py_error + 'a" where
  "py_index xs i =
     (if 0 \<le> i \<and> i < int (length xs) then Inr (xs ! nat i)
      else if i < 0 \<and> - int (length xs) \<le> i then Inr (xs ! nat (int (length xs) + i))
      else Inl IndexError)"

subsection \<open>Segment-distance evaluator (calculate\_midradius.py, lines 15--44)\<close>

text \<open>
  The comprehensions \<^verbatim>\<open>[... for i in range(3)]\<close> read the indices 0, 1, 2 of both points
  and raise \<^verbatim>\<open>IndexError\<close> on a shorter list. The parameter \<open>origin\<close> is never read by
  the source.
\<close>

definition closest_point_on_segment ::
  "real list \<Rightarrow> real list \<Rightarrow> real list \<Rightarrow> py_error + (real list \<times> real)" where
  "closest_point_on_segment p1 p2 origin =
     (if length p1 < 3 \<or> length p2 < 3 then Inl IndexError
      else
        let edge_vec = map (\<lambda>i. p2 ! i - p1 ! i) [0..<3];
            to_origin = map (\<lambda>i. - (p1 ! i)) [0..<3];
            edge_len_sq = sum_list (map (\<lambda>i. (edge_vec ! i)\<^sup>2) [0..<3])
        in if edge_len_sq < 1 / 10 ^ 10
           then Inr (p1, sqrt (sum_list (map (\<lambda>i. (p1 ! i)\<^sup>2) [0..<3])))
           else
             let t = sum_list (map (\<lambda>i. to_origin ! i * edge_vec ! i) [0..<3]) / edge_len_sq;
                 t = max 0 (min 1 t);
                 closest = map (\<lambda>i. p1 ! i + t * edge_vec ! i) [0..<3];
                 distance = sqrt (sum_list (map (\<lambda>i. (closest ! i)\<^sup>2) [0..<3]))
             in Inr (closest, distance))"

text \<open>The quantities of the specification, written on coordinates.\<close>

definition edge_len_sq3 :: "real list \<Rightarrow> real list \<Rightarrow> real" where
  "edge_len_sq3 p1 p2 =
     (p2 ! 0 - p1 ! 0)\<^sup>2 + (p2 ! 1 - p1 ! 1)\<^sup>2 + (p2 ! 2 - p1 ! 2)\<^sup>2"

definition segment_param :: "real list \<Rightarrow> real list \<Rightarrow> real" where
  "segment_param p1 p2 =
     max 0 (min 1
       ((- (p1 ! 0) * (p2 ! 0 - p1 ! 0) + - (p1 ! 1) * (p2 ! 1 - p1 ! 1)
          + - (p1 ! 2) * (p2 ! 2 - p1 ! 2)) / edge_len_sq3 p1 p2))"

definition point_at :: "real list \<Rightarrow> real list \<Rightarrow> real \<Rightarrow> real list" where
  "point_at p1 p2 t =
     [p1 ! 0 + t * (p2 ! 0 - p1 ! 0), p1 ! 1 + t * (p2 ! 1 - p1 ! 1),
      p1 ! 2 + t * (p2 ! 2 - p1 ! 2)]"

definition norm3 :: "real list \<Rightarrow> real" where
  "norm3 p = sqrt ((p ! 0)\<^sup>2 + (p ! 1)\<^sup>2 + (p ! 2)\<^sup>2)"

subsection \<open>Midradius calculator (calculate\_midradius.py, lines 96--115)\<close>

text \<open>
  \<open>min_distance\<close> starts at \<^verbatim>\<open>float('inf')\<close> and is a finite float after the first
  update; \<open>distance < min_distance\<close> is \<open>below\<close>.
\<close>

datatype bound = Infinity | Finite real

fun below :: "real \<Rightarrow> bound \<Rightarrow> bool" where
  "below d Infinity = True"
| "below d (Finite m) = (d < m)"

definition edge_closest :: "real list list \<Rightarrow> edge \<Rightarrow> py_error + (real list \<times> real)" where
  "edge_closest vertices edge =
     (case edge of (v1_idx, v2_idx) \<Rightarrow>
        (case py_index vertices v1_idx of
           Inl err \<Rightarrow> Inl err
         | Inr p1 \<Rightarrow>
             (case py_index vertices v2_idx of
                Inl err \<Rightarrow> Inl err
              | Inr p2 \<Rightarrow> closest_point_on_segment p1 p2 [0, 0, 0])))"

type_synonym best = "bound \<times> edge option \<times> real list option"

fun midradius_loop :: "real list list \<Rightarrow> edge list \<Rightarrow> best \<Rightarrow> py_error + best" where
  "midradius_loop vertices [] best = Inr best"
| "midradius_loop vertices (edge # edges) (min_distance, min_edge, min_point) =
     (case edge_closest vertices edge of
        Inl err \<Rightarrow> Inl err
      | Inr (closest_point, distance) \<Rightarrow>
          if below distance min_distance
          then midradius_loop vertices edges (Finite distance, Some edge, Some closest_point)
          else midradius_loop vertices edges (min_distance, min_edge, min_point))"

definition calculate_midradius :: "real list list \<Rightarrow> edge list \<Rightarrow> py_error + best" where
  "calculate_midradius vertices edges = midradius_loop vertices edges (Infinity, None, None)"

definition valid_index :: "'a list \<Rightarrow> int \<Rightarrow> bool" where
  "valid_index xs i = (- int (length xs) \<le> i \<and> i < int (length xs))"

subsection \<open>Edge extractor (convert\_obj\_to\_format.py, lines 50--66)\<close>

text \<open>
  \<open>edges_set\<close> is a Python set of tuples; \<^verbatim>\<open>sorted\<close> orders tuples lexicographically,
  which is the order of pairs in scope here.
\<close>

definition faces_to_edges :: "int list list \<Rightarrow> edge list" where
  "faces_to_edges faces =
     (let edges_set =
            fold (\<lambda>face edges_set.
                    fold (\<lambda>i edges_set.
                            let v1 = face ! i;
                                v2 = face ! ((i + 1) mod length face);
                                edge = (min v1 v2, max v1 v2)
                            in insert edge edges_set)
                         [0..<length face] edges_set)
                 faces {}
      in sorted_list_of_set edges_set)"

text \<open>
  The edge set in the words of the specification: the canonical pair of every consecutive
  index pair of every face, the wrap-around pair included; and the order "ascending by
  (first index, second index)".
\<close>

definition canonical_pairs :: "int list list \<Rightarrow> edge set" where
  "canonical_pairs faces =
     {(min (face ! i) (face ! ((i + 1) mod length face)),
       max (face ! i) (face ! ((i + 1) mod length face))) | face i.
        face \<in> set faces \<and> i < length face}"

definition edge_before :: "edge \<Rightarrow> edge \<Rightarrow> bool" where
  "edge_before e1 e2 = (fst e1 < fst e2 \<or> (fst e1 = fst e2 \<and> snd e1 < snd e2))"

subsection \<open>Midradius in the converter (convert\_obj\_to\_format.py, lines 105--138)\<close>

text \<open>
  The converter has its own \<^verbatim>\<open>calculate_midradius\<close>, with the segment computation inline
  and only the distance returned; it is named \<open>calculate_midradius_conv\<close> here.
\<close>

fun midradius_loop_conv :: "real list list \<Rightarrow> edge list \<Rightarrow> bound \<Rightarrow> py_error + bound" where
  "midradius_loop_conv vertices [] min_distance = Inr min_distance"
| "midradius_loop_conv vertices ((v1_idx, v2_idx) # edges) min_distance =
     (case py_index vertices v1_idx of
        Inl err \<Rightarrow> Inl err
      | Inr p1 \<Rightarrow>
          (case py_index vertices v2_idx of
             Inl err \<Rightarrow> Inl err
           | Inr p2 \<Rightarrow>
               if length p1 < 3 \<or> length p2 < 3 then Inl IndexError
               else
                 let edge_vec = map (\<lambda>i. p2 ! i - p1 ! i) [0..<3];
                     to_origin = map (\<lambda>i. - (p1 ! i)) [0..<3];
                     edge_len_sq = sum_list (map (\<lambda>i. (edge_vec ! i)\<^sup>2) [0..<3]);
                     distance =
                       (if edge_len_sq < 1 / 10 ^ 10
                        then sqrt (sum_list (map (\<lambda>i. (p1 ! i)\<^sup>2) [0..<3]))
                        else
                          let t = sum_list (map (\<lambda>i. to_origin ! i * edge_vec ! i) [0..<3])
                                    / edge_len_sq;
                              t = max 0 (min 1 t);
                              closest = map (\<lambda>i. p1 ! i + t * edge_vec ! i) [0..<3]
                          in sqrt (sum_list (map (\<lambda>i. (closest ! i)\<^sup>2) [0..<3])))
                 in midradius_loop_conv vertices edges
                      (if below distance min_distance then Finite distance else min_distance)))"

definition calculate_midradius_conv :: "real list list \<Rightarrow> edge list \<Rightarrow> py_error + bound" where
  "calculate_midradius_conv vertices edges = midradius_loop_conv vertices edges Infinity"

text \<open>
  The cube fixture of the specification: 8 vertices at \<open>(\<plusminus>0.5, \<plusminus>0.5, \<plusminus>0.5)\<close> and the 6
  square faces.
\<close>

definition cube_vertices :: "real list list" where
  "cube_vertices =
     [[-1/2, -1/2, -1/2], [1/2, -1/2, -1/2], [1/2, 1/2, -1/2], [-1/2, 1/2, -1/2],
      [-1/2, -1/2, 1/2], [1/2, -1/2, 1/2], [1/2, 1/2, 1/2], [-1/2, 1/2, 1/2]]"

definition cube_faces :: "int list list" where
  "cube_faces =
     [[0, 1, 2, 3], [4, 5, 6, 7], [0, 1, 5, 4], [1, 2, 6, 5], [2, 3, 7, 6], [3, 0, 4, 7]]"

subsection \<open>Float arithmetic\<close>

text \<open>
  The five operations the normaliser applies to floats: \<^verbatim>\<open>+\<close> (inside \<^verbatim>\<open>sum\<close>), \<^verbatim>\<open>-\<close>,
  \<^verbatim>\<open>/\<close>, \<^verbatim>\<open>** 2\<close> and \<^verbatim>\<open>math.sqrt\<close>. A float is the real number it denotes.
\<close>

record arith =
  fadd :: "real \<Rightarrow> real \<Rightarrow> real"
  fsub :: "real \<Rightarrow> real \<Rightarrow> real"
  fdiv :: "real \<Rightarrow> real \<Rightarrow> real"
  fsq :: "real \<Rightarrow> real"
  fsqrt :: "real \<Rightarrow> real"


text \<open>
  Rounding to the nearest integer, ties to the even one; it is the rounding of binary64
  arithmetic (on the significand) and of the format \<^verbatim>\<open>.4f\<close> (on the fourth decimal).
\<close>

definition round_half_even :: "real \<Rightarrow> int" where
  "round_half_even x =
     (let f = \<lfloor>x\<rfloor>; r = x - of_int f
      in if r < 1 / 2 then f else if 1 / 2 < r then f + 1 else if even f then f else f + 1)"

text \<open>
  Binary64 with round-to-nearest-even: a float is an integer of magnitude below \<open>2\<^sup>5\<^sup>3\<close> times a
  power of two, and \<open>fl x\<close> is the float nearest to \<open>x\<close>. The spacing of the floats around a
  magnitude \<open>m\<close> is the power of two \<open>q\<close> with \<open>2\<^sup>5\<^sup>2 \<le> m / q < 2\<^sup>5\<^sup>3\<close>, found by halving
  (\<open>scale_down\<close>) or doubling (\<open>scale_up\<close>) \<open>m\<close>. The exponent is unbounded: overflow and
  subnormal numbers are outside the model. Each operation returns the exact result rounded.
\<close>

function scale_down :: "real \<Rightarrow> real" where
  "scale_down m = (if 2 ^ 53 \<le> m then 2 * scale_down (m / 2) else 1)"
  by pat_completeness auto
termination
proof (relation "measure (\<lambda>m. nat \<lfloor>m\<rfloor>)")
  show "wf (measure (\<lambda>m :: real. nat \<lfloor>m\<rfloor>))" by simp
next
  fix m :: real
  assume m: "2 ^ 53 \<le> m"
  have "real_of_int \<lfloor>m / 2\<rfloor> \<le> m / 2" by (rule of_int_floor_le)
  moreover have "m / 2 \<le> m - 1" using m by simp
  moreover have "m - 1 < real_of_int \<lfloor>m\<rfloor>" by linarith
  ultimately have "real_of_int \<lfloor>m / 2\<rfloor> < real_of_int \<lfloor>m\<rfloor>" by linarith
  then have lt: "\<lfloor>m / 2\<rfloor> < \<lfloor>m\<rfloor>" by simp
  have "0 \<le> \<lfloor>m / 2\<rfloor>" using m by simp
  then have "nat \<lfloor>m / 2\<rfloor> < nat \<lfloor>m\<rfloor>" using lt by linarith
  then show "(m / 2, m) \<in> measure (\<lambda>m. nat \<lfloor>m\<rfloor>)" unfolding in_measure .
qed

function scale_up :: "real \<Rightarrow> real" where
  "scale_up m = (if 0 < m \<and> m < 2 ^ 52 then scale_up (m * 2) / 2 else 1)"
  by pat_completeness auto
termination
proof (relation "measure (\<lambda>m. nat \<lfloor>2 ^ 52 / m\<rfloor>)")
  show "wf (measure (\<lambda>m :: real. nat \<lfloor>2 ^ 52 / m\<rfloor>))" by simp
next
  fix m :: real
  assume m: "0 < m \<and> m < 2 ^ 52"
  have halve: "nat \<lfloor>y / 2\<rfloor> < nat \<lfloor>y\<rfloor>" if y: "1 < y" for y :: real
  proof -
    have lt: "\<lfloor>y / 2\<rfloor> < \<lfloor>y\<rfloor>"
    proof (cases "2 \<le> y")
      case True
      have "real_of_int \<lfloor>y / 2\<rfloor> \<le> y / 2" by (rule of_int_floor_le)
      moreover have "y / 2 \<le> y - 1" using True by simp
      moreover have "y - 1 < real_of_int \<lfloor>y\<rfloor>" by linarith
      ultimately have "real_of_int \<lfloor>y / 2\<rfloor> < real_of_int \<lfloor>y\<rfloor>" by linarith
      then show ?thesis by (simp only: of_int_less_iff)
    next
      case False
      then have "y / 2 < 1" by simp
      then have "\<lfloor>y / 2\<rfloor> < 1" by (simp add: floor_less_iff)
      moreover have "1 \<le> \<lfloor>y\<rfloor>" using y by (simp add: le_floor_iff)
      ultimately show ?thesis by linarith
    qed
    have "0 \<le> \<lfloor>y / 2\<rfloor>" using y by simp
    then show ?thesis using lt by linarith
  qed
  have "1 < 2 ^ 52 / m" using m by simp
  then have "nat \<lfloor>2 ^ 52 / m / 2\<rfloor> < nat \<lfloor>2 ^ 52 / m\<rfloor>" by (rule halve)
  moreover have "2 ^ 52 / (m * 2) = 2 ^ 52 / m / 2" by simp
  ultimately show "(m * 2, m) \<in> measure (\<lambda>m. nat \<lfloor>2 ^ 52 / m\<rfloor>)"
    unfolding in_measure by (simp only:)
qed

declare scale_down.simps [simp del]

declare scale_up.simps [simp del]

definition fl :: "real \<Rightarrow> real" where
  "fl x =
     (let m = \<bar>x\<bar>;
          q = (if 2 ^ 53 \<le> m then scale_down m else scale_up m)
      in real_of_int (round_half_even (x / q)) * q)"

definition binary64 :: arith where
  "binary64 = \<lparr>fadd = (\<lambda>x y. fl (x + y)), fsub = (\<lambda>x y. fl (x - y)),
                fdiv = (\<lambda>x y. fl (x / y)), fsq = (\<lambda>x. fl (x * x)),
                fsqrt = (\<lambda>x. fl (sqrt x))\<rparr>"

text \<open>\<^verbatim>\<open>sum\<close> adds the items to the integer 0, from the left.\<close>

definition py_sum :: "arith \<Rightarrow> real list \<Rightarrow> real" where
  "py_sum ar xs = foldl (fadd ar) 0 xs"

subsection \<open>Normaliser (convert\_obj\_to\_format.py, lines 68--103)\<close>

text \<open>
  \<^verbatim>\<open>v[i] for i in range(3)\<close> raises \<^verbatim>\<open>IndexError\<close> on a vertex with fewer than three
  coordinates; \<^verbatim>\<open>max\<close> over the non-empty list of distances is \<open>Max\<close>. The arithmetic
  \<open>ar\<close> is \<open>binary64\<close> when the script runs and \<open>exact\<close> in real arithmetic.
\<close>

definition normalize_vertices :: "arith \<Rightarrow> real list list \<Rightarrow> py_error + real list list" where
  "normalize_vertices ar vertices =
     (if vertices = [] then Inr vertices
      else if \<exists>v \<in> set vertices. length v < 3 then Inl IndexError
      else
        let centroid = map (\<lambda>i. fdiv ar (py_sum ar (map (\<lambda>v. v ! i) vertices))
                                    (real (length vertices))) [0..<3];
            centered = map (\<lambda>v. map (\<lambda>i. fsub ar (v ! i) (centroid ! i)) [0..<3]) vertices;
            max_dist = Max (set (map (\<lambda>v. fsqrt ar (py_sum ar (map (\<lambda>i. fsq ar (v ! i)) [0..<3])))
                                   centered))
        in if max_dist > 0
           then Inr (map (\<lambda>v. map (\<lambda>i. fdiv ar (v ! i) max_dist) [0..<3]) centered)
           else Inr centered)"



definition sub3 :: "real list \<Rightarrow> real list \<Rightarrow> real list" where
  "sub3 v c = [v ! 0 - c ! 0, v ! 1 - c ! 1, v ! 2 - c ! 2]"


subsection \<open>Text: characters, formatting and parsing of numbers\<close>

text \<open>
  Text is ASCII: \<open>is_space\<close> is \<^verbatim>\<open>str.isspace\<close> (and \<^verbatim>\<open>\s\<close>) and \<open>is_digit\<close> is \<^verbatim>\<open>\d\<close> on
  ASCII characters. \<open>fmt4\<close> is the format \<^verbatim>\<open>.4f\<close> (correct rounding, ties to even, sign of
  the value kept), \<open>str_int\<close> is the default formatting of an integer. \<open>py_int\<close> and
  \<open>py_float\<close> are \<^verbatim>\<open>int()\<close> and \<^verbatim>\<open>float()\<close> on the strings that the patterns below let through
  (digits, and for \<open>py_float\<close> also \<open>-\<close> and \<open>.\<close>): any other string is outside their model.
\<close>

definition newline :: char where
  "newline = CHR 0x0A"

definition is_digit :: "char \<Rightarrow> bool" where
  "is_digit c = (c \<in> set ''0123456789'')"

definition is_space :: "char \<Rightarrow> bool" where
  "is_space c = (c \<in> {CHR 0x20, CHR 0x09, CHR 0x0A, CHR 0x0B, CHR 0x0C, CHR 0x0D,
                       CHR 0x1C, CHR 0x1D, CHR 0x1E, CHR 0x1F})"

definition is_numch :: "char \<Rightarrow> bool" where
  "is_numch c = (c = CHR ''-'' \<or> is_digit c \<or> c = CHR ''.'')"

definition is_numdot :: "char \<Rightarrow> bool" where
  "is_numdot c = (is_digit c \<or> c = CHR ''.'')"

definition digit_char :: "nat \<Rightarrow> char" where
  "digit_char d = ''0123456789'' ! d"

definition digit_val :: "char \<Rightarrow> nat" where
  "digit_val c = of_char c - 48"

function str_nat :: "nat \<Rightarrow> string" where
  "str_nat n = (if n < 10 then [digit_char n] else str_nat (n div 10) @ [digit_char (n mod 10)])"
  by pat_completeness auto
termination
  by (relation "measure id") auto

declare str_nat.simps [simp del]

definition str_int :: "int \<Rightarrow> string" where
  "str_int i = (if i < 0 then CHR ''-'' # str_nat (nat (- i)) else str_nat (nat i))"

definition fmt4 :: "real \<Rightarrow> string" where
  "fmt4 x =
     (let n = nat (round_half_even (\<bar>x\<bar> * 10000))
      in (if x < 0 then ''-'' else '''') @ str_nat (n div 10000) @ ''.''
         @ [digit_char (n div 1000 mod 10), digit_char (n div 100 mod 10),
            digit_char (n div 10 mod 10), digit_char (n mod 10)])"

fun fmt_float :: "bound \<Rightarrow> string" where
  "fmt_float Infinity = ''inf''"
| "fmt_float (Finite x) = fmt4 x"

definition nat_of_digits :: "string \<Rightarrow> nat" where
  "nat_of_digits s = fold (\<lambda>c n. 10 * n + digit_val c) s 0"

definition py_int :: "string \<Rightarrow> py_error + int" where
  "py_int s = (if s \<noteq> [] \<and> list_all is_digit s then Inr (int (nat_of_digits s))
               else Inl ValueError)"

definition py_float :: "string \<Rightarrow> py_error + real" where
  "py_float s =
     (let neg = (s \<noteq> [] \<and> hd s = CHR ''-'');
          body = (if neg then tl s else s);
          ip = takeWhile is_digit body;
          rest = dropWhile is_digit body;
          sign = (if neg then - 1 else 1)
      in case rest of
           [] \<Rightarrow> if ip = [] then Inl ValueError else Inr (sign * real (nat_of_digits ip))
         | c # fp \<Rightarrow>
             if c = CHR ''.'' \<and> list_all is_digit fp \<and> (ip \<noteq> [] \<or> fp \<noteq> [])
             then Inr (sign * (real (nat_of_digits ip)
                                + real (nat_of_digits fp) / 10 ^ length fp))
             else Inl ValueError)"

subsection \<open>Line patterns of the record format\<close>

text \<open>
  A character class with \<^verbatim>\<open>+\<close> followed by a character outside the class (or by the end of
  the line) can only match the longest run of the class, so the three anchored patterns are
  matched left to right without backtracking.
\<close>

definition take_class :: "(char \<Rightarrow> bool) \<Rightarrow> string \<Rightarrow> (string \<times> string) option" where
  "take_class P s = (if takeWhile P s = [] then None else Some (takeWhile P s, dropWhile P s))"

fun expect :: "char \<Rightarrow> string \<Rightarrow> string option" where
  "expect c [] = None"
| "expect c (x # xs) = (if x = c then Some xs else None)"

definition at_end :: "string \<Rightarrow> unit option" where
  "at_end s = (if s = [] then Some () else None)"

text \<open>\<^verbatim>\<open>^\d+:([-\d.]+),([-\d.]+),([-\d.]+)$\<close>\<close>

definition match_vertex :: "string \<Rightarrow> (string \<times> string \<times> string) option" where
  "match_vertex line = do {
     (idx, r) \<leftarrow> take_class is_digit line;
     r \<leftarrow> expect (CHR '':'') r;
     (g1, r) \<leftarrow> take_class is_numch r;
     r \<leftarrow> expect (CHR '','') r;
     (g2, r) \<leftarrow> take_class is_numch r;
     r \<leftarrow> expect (CHR '','') r;
     (g3, r) \<leftarrow> take_class is_numch r;
     _ \<leftarrow> at_end r;
     Some (g1, g2, g3)
   }"

text \<open>\<^verbatim>\<open>^\d+:(\d+),(\d+)$\<close>\<close>

definition match_edge :: "string \<Rightarrow> (string \<times> string) option" where
  "match_edge line = do {
     (idx, r) \<leftarrow> take_class is_digit line;
     r \<leftarrow> expect (CHR '':'') r;
     (g1, r) \<leftarrow> take_class is_digit r;
     r \<leftarrow> expect (CHR '','') r;
     (g2, r) \<leftarrow> take_class is_digit r;
     _ \<leftarrow> at_end r;
     Some (g1, g2)
   }"

text \<open>\<^verbatim>\<open>^([\d.]+)$\<close>\<close>

definition match_midradius :: "string \<Rightarrow> string option" where
  "match_midradius line = do {
     (g1, r) \<leftarrow> take_class is_numdot line;
     _ \<leftarrow> at_end r;
     Some g1
   }"

subsection \<open>Decoder (calculate\_midradius.py, lines 46--94)\<close>

fun split_newline :: "string \<Rightarrow> string list" where
  "split_newline [] = [[]]"
| "split_newline (c # cs) =
     (if c = newline then [] # split_newline cs
      else (case split_newline cs of [] \<Rightarrow> [[c]] | l # ls \<Rightarrow> (c # l) # ls))"

definition strip :: "string \<Rightarrow> string" where
  "strip s = rev (dropWhile is_space (rev (dropWhile is_space s)))"

definition startswith :: "string \<Rightarrow> string \<Rightarrow> bool" where
  "startswith s p = (take (length p) s = p)"

datatype sect = In_vertices | In_edges | In_midradius

type_synonym parse_state = "real list list \<times> edge list \<times> real option \<times> sect option"

definition parse_line :: "parse_state \<Rightarrow> string \<Rightarrow> py_error + parse_state" where
  "parse_line st raw =
     (case st of (vertices, edges, midradius, section) \<Rightarrow>
        let line = strip raw in
        if startswith line ''VERTICES:'' then Inr (vertices, edges, midradius, Some In_vertices)
        else if startswith line ''EDGES:'' then Inr (vertices, edges, midradius, Some In_edges)
        else if startswith line ''MIDRADIUS:''
          then Inr (vertices, edges, midradius, Some In_midradius)
        else if line = [] then Inr st
        else
          (case section of
             Some In_vertices \<Rightarrow>
               (case match_vertex line of
                  None \<Rightarrow> Inr st
                | Some (g1, g2, g3) \<Rightarrow>
                    (case py_float g1 of
                       Inl err \<Rightarrow> Inl err
                     | Inr x \<Rightarrow>
                         (case py_float g2 of
                            Inl err \<Rightarrow> Inl err
                          | Inr y \<Rightarrow>
                              (case py_float g3 of
                                 Inl err \<Rightarrow> Inl err
                               | Inr z \<Rightarrow>
                                   Inr (vertices @ [[x, y, z]], edges, midradius, section)))))
           | Some In_edges \<Rightarrow>
               (case match_edge line of
                  None \<Rightarrow> Inr st
                | Some (g1, g2) \<Rightarrow>
                    (case py_int g1 of
                       Inl err \<Rightarrow> Inl err
                     | Inr a \<Rightarrow>
                         (case py_int g2 of
                            Inl err \<Rightarrow> Inl err
                          | Inr b \<Rightarrow> Inr (vertices, edges @ [(a, b)], midradius, section))))
           | Some In_midradius \<Rightarrow>
               (case match_midradius line of
                  None \<Rightarrow> Inr st
                | Some g1 \<Rightarrow>
                    (case py_float g1 of
                       Inl err \<Rightarrow> Inl err
                     | Inr m \<Rightarrow> Inr (vertices, edges, Some m, section)))
           | None \<Rightarrow> Inr st))"

fun parse_lines :: "parse_state \<Rightarrow> string list \<Rightarrow> py_error + parse_state" where
  "parse_lines st [] = Inr st"
| "parse_lines st (raw # lines) =
     (case parse_line st raw of
        Inl err \<Rightarrow> Inl err
      | Inr st' \<Rightarrow> parse_lines st' lines)"

definition parse_polyhedron_file ::
  "string \<Rightarrow> py_error + (real list list \<times> edge list \<times> real option)" where
  "parse_polyhedron_file content =
     (case parse_lines ([], [], None, None) (split_newline content) of
        Inl err \<Rightarrow> Inl err
      | Inr (vertices, edges, midradius, section) \<Rightarrow> Inr (vertices, edges, midradius))"

subsection \<open>Encoder (convert\_obj\_to\_format.py, lines 140--159)\<close>

fun join_newline :: "string list \<Rightarrow> string" where
  "join_newline [] = []"
| "join_newline [l] = l"
| "join_newline (l # ls) = l @ newline # join_newline ls"

definition vertex_line :: "nat \<times> real list \<Rightarrow> string" where
  "vertex_line iv =
     (case iv of (i, v) \<Rightarrow>
        str_nat i @ '':'' @ fmt4 (v ! 0) @ '','' @ fmt4 (v ! 1) @ '','' @ fmt4 (v ! 2))"

definition edge_line :: "nat \<times> edge \<Rightarrow> string" where
  "edge_line ie =
     (case ie of (i, (v1, v2)) \<Rightarrow> str_nat i @ '':'' @ str_int v1 @ '','' @ str_int v2)"

definition convert_to_format :: "real list list \<Rightarrow> edge list \<Rightarrow> bound \<Rightarrow> py_error + string" where
  "convert_to_format vertices edges midradius =
     (if \<exists>v \<in> set vertices. length v < 3 then Inl IndexError
      else
        let lines = [''VERTICES:''];
            lines = lines @ map vertex_line (enumerate 0 vertices);
            lines = lines @ [[]];
            lines = lines @ [''EDGES:''];
            lines = lines @ map edge_line (enumerate 0 edges);
            lines = lines @ [[]];
            lines = lines @ [''MIDRADIUS:''];
            lines = lines @ [fmt_float midradius]
        in Inr (join_newline lines))"

subsection \<open>Update in place (calculate\_midradius.py, lines 117--128)\<close>

text \<open>
  The file is its content: the function maps the content read to the content written.
  \<open>midradius_match s\<close> is the rest of \<open>s\<close> after a match of
  \<^verbatim>\<open>(MIDRADIUS:\s*\n)([\d.]+)\<close> at the start of \<open>s\<close>. The number starts with a character
  that is not whitespace, so the newline of the pattern is the last character of the longest
  whitespace run after the colon, and the number is the longest run of digits and dots.
  \<^verbatim>\<open>re.sub\<close> replaces every match, scanning from the left and resuming after each match.
\<close>

definition midradius_match :: "string \<Rightarrow> string option" where
  "midradius_match s =
     (if startswith s ''MIDRADIUS:'' then
        let r = drop (length ''MIDRADIUS:'') s;
            ws = takeWhile is_space r;
            r = dropWhile is_space r
        in if ws \<noteq> [] \<and> last ws = newline \<and> takeWhile is_numdot r \<noteq> []
           then Some (dropWhile is_numdot r)
           else None
      else None)"

function re_sub :: "string \<Rightarrow> string \<Rightarrow> string" where
  "re_sub replacement [] = []"
| "re_sub replacement (c # cs) =
     (case midradius_match (c # cs) of
        Some rest \<Rightarrow> replacement @ re_sub replacement rest
      | None \<Rightarrow> c # re_sub replacement cs)"
  by pat_completeness auto
termination
proof (relation "measure (\<lambda>(replacement, s). length s)")
  fix replacement :: string and c cs rest
  assume m: "midradius_match (c # cs) = Some rest"
  let ?r = "drop (length ''MIDRADIUS:'') (c # cs)"
  have rest: "rest = dropWhile is_numdot (dropWhile is_space ?r)"
    using m by (simp add: midradius_match_def Let_def split: if_splits)
  have "length rest \<le> length ?r"
    unfolding rest by (rule order_trans [OF length_dropWhile_le length_dropWhile_le])
  then show "((replacement, rest), (replacement, c # cs)) \<in> measure (\<lambda>(replacement, s). length s)"
    by simp
qed simp_all

declare re_sub.simps [simp del]

definition update_midradius_in_file :: "string \<Rightarrow> bound \<Rightarrow> string" where
  "update_midradius_in_file content new_midradius =
     re_sub (''MIDRADIUS:'' @ [newline] @ fmt_float new_midradius) content"

fun has_midradius_match :: "string \<Rightarrow> bool" where
  "has_midradius_match [] = False"
| "has_midradius_match (c # cs) = (midradius_match (c # cs) \<noteq> None \<or> has_midradius_match cs)"

subsection \<open>One record of the batch (calculate\_midradius.py, lines 156--187)\<close>

text \<open>
  The body of the loop of \<^verbatim>\<open>main\<close> for one file, without the console output: the content
  written back, a skipped record, or the exception caught and reported.
\<close>

datatype outcome = Skipped | Updated string | Failed py_error

definition process_file :: "string \<Rightarrow> outcome" where
  "process_file content =
     (case parse_polyhedron_file content of
        Inl err \<Rightarrow> Failed err
      | Inr (vertices, edges, old_midradius) \<Rightarrow>
          if vertices = [] \<or> edges = [] then Skipped
          else
            (case calculate_midradius vertices edges of
               Inl err \<Rightarrow> Failed err
             | Inr (new_midradius, min_edge, min_point) \<Rightarrow>
                 Updated (update_midradius_in_file content new_midradius)))"

text \<open>\<open>no_match_before n s\<close>: no match of the pattern starts at any of the first \<open>n\<close> positions of \<open>s\<close>.\<close>

fun no_match_before :: "nat \<Rightarrow> string \<Rightarrow> bool" where
  "no_match_before 0 s = True"
| "no_match_before (Suc n) [] = True"
| "no_match_before (Suc n) (c # cs) = (midradius_match (c # cs) = None \<and> no_match_before n cs)"


subsection \<open>Notions of the round trip\<close>

text \<open>
  \<open>round4\<close> is the statement's ``rounded to 4 decimal digits'': the nearest multiple of
  \<open>1 / 10000\<close>, ties to the even one, which is the rounding of \<^verbatim>\<open>.4f\<close>. \<open>frac4\<close> names the four
  fractional digits written by \<open>fmt4\<close>, and \<open>record_lines\<close> the lines that
  \<open>convert_to_format\<close> joins.
\<close>

definition round4 :: "real \<Rightarrow> real" where
  "round4 x = real_of_int (round_half_even (x * 10000)) / 10000"

definition frac4 :: "nat \<Rightarrow> string" where
  "frac4 n = [digit_char (n div 1000 mod 10), digit_char (n div 100 mod 10),
              digit_char (n div 10 mod 10), digit_char (n mod 10)]"

definition record_lines :: "real list list \<Rightarrow> edge list \<Rightarrow> real \<Rightarrow> string list" where
  "record_lines vs es m = [''VERTICES:''] @ map vertex_line (enumerate 0 vs) @ [[], ''EDGES:'']
     @ map edge_line (enumerate 0 es) @ [[], ''MIDRADIUS:'', fmt4 m]"

subsection \<open>A header followed by a line of digits and dots\<close>

text \<open>
  The condition in the words of the statement on the silent no-op, with the decoder's
  reading of a line: a line that, stripped, starts with \<^verbatim>\<open>MIDRADIUS:\<close>, directly followed by
  a line that, stripped, is a non-empty run of digits and dots.
\<close>

definition is_header_line :: "string \<Rightarrow> bool" where
  "is_header_line l = startswith (strip l) ''MIDRADIUS:''"

definition is_number_line :: "string \<Rightarrow> bool" where
  "is_number_line l = (strip l \<noteq> [] \<and> list_all is_numdot (strip l))"

fun header_then_number :: "string list \<Rightarrow> bool" where
  "header_then_number (h # l # ls) =
     ((is_header_line h \<and> is_number_line l) \<or> header_then_number (l # ls))"
| "header_then_number ls = False"

definition header_with_number_line :: "string \<Rightarrow> bool" where
  "header_with_number_line content = header_then_number (split_newline content)"
section \<open>Theorems\<close>

lemma range3: "[0..<3] = [0, 1, 2]"
  by (simp add: upt_rec)

lemma closest_point_on_segment_triple:
  "closest_point_on_segment [x1, y1, z1] [x2, y2, z2] origin =
     (if edge_len_sq3 [x1, y1, z1] [x2, y2, z2] < 1 / 10 ^ 10
      then Inr ([x1, y1, z1], norm3 [x1, y1, z1])
      else Inr (point_at [x1, y1, z1] [x2, y2, z2] (segment_param [x1, y1, z1] [x2, y2, z2]),
                norm3 (point_at [x1, y1, z1] [x2, y2, z2]
                         (segment_param [x1, y1, z1] [x2, y2, z2]))))"
proof -
  let ?p1 = "[x1, y1, z1]" and ?p2 = "[x2, y2, z2]"
  let ?ev = "map (\<lambda>i. ?p2 ! i - ?p1 ! i) [0..<3]"
  have ev: "?ev = [x2 - x1, y2 - y1, z2 - z1]"
    by (simp add: range3)
  have len: "sum_list (map (\<lambda>i. (?ev ! i)\<^sup>2) [0..<3]) = edge_len_sq3 ?p1 ?p2"
    unfolding ev by (simp add: range3 edge_len_sq3_def)
  have num: "sum_list (map (\<lambda>i. map (\<lambda>i. - (?p1 ! i)) [0..<3] ! i * ?ev ! i) [0..<3])
      = - (?p1 ! 0) * (?p2 ! 0 - ?p1 ! 0) + - (?p1 ! 1) * (?p2 ! 1 - ?p1 ! 1)
          + - (?p1 ! 2) * (?p2 ! 2 - ?p1 ! 2)"
    unfolding ev by (simp add: range3)
  have pt: "map (\<lambda>i. ?p1 ! i + t * ?ev ! i) [0..<3] = point_at ?p1 ?p2 t" for t
    unfolding ev by (simp add: range3 point_at_def)
  have nrm: "sqrt (sum_list (map (\<lambda>i. (p ! i)\<^sup>2) [0..<3])) = norm3 p" for p :: "real list"
    by (simp add: range3 norm3_def)
  show ?thesis
    unfolding closest_point_on_segment_def Let_def len num pt nrm segment_param_def [symmetric]
    by simp
qed

lemma segment_param_range: "0 \<le> segment_param p1 p2 \<and> segment_param p1 p2 \<le> 1"
  by (simp add: segment_param_def)

text \<open>
  C1. For 3-D points \<open>p1 = [x1, y1, z1]\<close> and \<open>p2 = [x2, y2, z2]\<close>: when the squared
  edge length is below \<open>1e-10\<close> (in particular when \<open>p1 = p2\<close>) the function returns
  \<open>p1\<close> itself and the Euclidean norm of \<open>p1\<close>; otherwise it returns the point
  \<open>p1 + t * (p2 - p1)\<close> with \<open>t = dot (-p1) (p2 - p1) / |p2 - p1|\<^sup>2\<close> clamped to
  \<open>[0, 1]\<close>, and the norm of that point. The parameter always lies in \<open>[0, 1]\<close>.
\<close>

theorem closest_point_on_segment_spec:
  fixes x1 y1 z1 x2 y2 z2 :: real
  defines "p1 \<equiv> [x1, y1, z1]" and "p2 \<equiv> [x2, y2, z2]"
  shows "closest_point_on_segment p1 p2 origin =
           (if edge_len_sq3 p1 p2 < 1 / 10 ^ 10 then Inr (p1, norm3 p1)
            else Inr (point_at p1 p2 (segment_param p1 p2),
                      norm3 (point_at p1 p2 (segment_param p1 p2))))
         \<and> 0 \<le> segment_param p1 p2 \<and> segment_param p1 p2 \<le> 1
         \<and> closest_point_on_segment p1 p1 origin = Inr (p1, norm3 p1)"
proof -
  have same: "edge_len_sq3 p1 p1 < 1 / 10 ^ 10"
    by (simp add: edge_len_sq3_def)
  show ?thesis
    unfolding p1_def p2_def
    using same [unfolded p1_def]
    by (simp only: closest_point_on_segment_triple segment_param_range if_True simp_thms)
qed

theorem closest_point_on_segment_spec_witness:
  "closest_point_on_segment [1, 0, 0] [0, 1, 0] [0, 0, 0] = Inr ([1 / 2, 1 / 2, 0], sqrt (1 / 2))
   \<and> closest_point_on_segment [1, 2, 2] [1, 2, 2] [0, 0, 0] = Inr ([1, 2, 2], 3)"
proof -
  have "sqrt ((1::real)\<^sup>2 + 2\<^sup>2 + 2\<^sup>2) = 3"
    by (simp add: real_sqrt_unique)
  then show ?thesis
    using closest_point_on_segment_spec [of 1 0 0 0 1 0 "[0, 0, 0]"]
      closest_point_on_segment_spec [of 1 2 2 1 2 2 "[0, 0, 0]"]
    by (simp add: edge_len_sq3_def segment_param_def point_at_def norm3_def power2_eq_square)
qed

lemma below_trans: "d < d' \<Longrightarrow> below d' m \<Longrightarrow> below d m"
  by (cases m) auto

lemma not_below_le: "below d m \<Longrightarrow> \<not> below d' m \<Longrightarrow> d < d'"
  by (cases m) auto

lemma midradius_loop_inv:
  assumes "map (edge_closest vertices) edges = map Inr rs"
  shows "(midradius_loop vertices edges (m, me, mp) = Inr (m, me, mp)
            \<and> (\<forall>j<length rs. \<not> below (snd (rs ! j)) m))
         \<or> (\<exists>i<length rs.
               midradius_loop vertices edges (m, me, mp)
                 = Inr (Finite (snd (rs ! i)), Some (edges ! i), Some (fst (rs ! i)))
               \<and> below (snd (rs ! i)) m
               \<and> (\<forall>j<length rs. snd (rs ! i) \<le> snd (rs ! j))
               \<and> (\<forall>j<i. snd (rs ! i) < snd (rs ! j)))"
  using assms
proof (induction edges arbitrary: rs m me mp)
  case Nil
  then show ?case by simp
next
  case (Cons e es)
  then obtain r rs' where rs: "rs = r # rs'" and r: "edge_closest vertices e = Inr r"
    and rest: "map (edge_closest vertices) es = map Inr rs'"
    by (cases rs) auto
  obtain p d where pd: "r = (p, d)" by (cases r)
  show ?case
  proof (cases "below d m")
    case True
    have step: "midradius_loop vertices (e # es) (m, me, mp)
        = midradius_loop vertices es (Finite d, Some e, Some p)"
      using True r pd by simp
    from Cons.IH [OF rest, of "Finite d" "Some e" "Some p"]
    show ?thesis
    proof (elim disjE conjE exE)
      assume same: "midradius_loop vertices es (Finite d, Some e, Some p) = Inr (Finite d, Some e, Some p)"
        and none: "\<forall>j<length rs'. \<not> below (snd (rs' ! j)) (Finite d)"
      have "\<forall>j<length rs. snd (rs ! 0) \<le> snd (rs ! j)"
        using none rs pd by (auto simp: nth_Cons split: nat.splits)
      then have "\<exists>i<length rs.
               midradius_loop vertices (e # es) (m, me, mp)
                 = Inr (Finite (snd (rs ! i)), Some ((e # es) ! i), Some (fst (rs ! i)))
               \<and> below (snd (rs ! i)) m
               \<and> (\<forall>j<length rs. snd (rs ! i) \<le> snd (rs ! j))
               \<and> (\<forall>j<i. snd (rs ! i) < snd (rs ! j))"
        using step same True rs pd by (intro exI [of _ 0]) simp
      then show ?thesis by blast
    next
      fix i
      assume i: "i < length rs'"
        and res: "midradius_loop vertices es (Finite d, Some e, Some p)
                 = Inr (Finite (snd (rs' ! i)), Some (es ! i), Some (fst (rs' ! i)))"
        and bel: "below (snd (rs' ! i)) (Finite d)"
        and le: "\<forall>j<length rs'. snd (rs' ! i) \<le> snd (rs' ! j)"
        and lt: "\<forall>j<i. snd (rs' ! i) < snd (rs' ! j)"
      have d: "snd (rs' ! i) < d" using bel by simp
      have a: "below (snd (rs ! Suc i)) m"
        using below_trans [OF d True] rs by simp
      have b: "\<forall>j<length rs. snd (rs ! Suc i) \<le> snd (rs ! j)"
        using le d rs pd by (auto simp: nth_Cons split: nat.splits)
      have c: "\<forall>j<Suc i. snd (rs ! Suc i) < snd (rs ! j)"
        using lt d rs pd by (auto simp: nth_Cons split: nat.splits)
      have "Suc i < length rs" using i rs by simp
      moreover have "midradius_loop vertices (e # es) (m, me, mp)
                 = Inr (Finite (snd (rs ! Suc i)), Some ((e # es) ! Suc i), Some (fst (rs ! Suc i)))"
        using step res rs by simp
      ultimately show ?thesis using a b c by blast
    qed
  next
    case False
    have step: "midradius_loop vertices (e # es) (m, me, mp)
        = midradius_loop vertices es (m, me, mp)"
      using False r pd by simp
    from Cons.IH [OF rest, of m me mp]
    show ?thesis
    proof (elim disjE conjE exE)
      assume same: "midradius_loop vertices es (m, me, mp) = Inr (m, me, mp)"
        and none: "\<forall>j<length rs'. \<not> below (snd (rs' ! j)) m"
      have "\<forall>j<length rs. \<not> below (snd (rs ! j)) m"
        using none False rs pd by (auto simp: nth_Cons split: nat.splits)
      then show ?thesis using step same by simp
    next
      fix i
      assume i: "i < length rs'"
        and res: "midradius_loop vertices es (m, me, mp)
                 = Inr (Finite (snd (rs' ! i)), Some (es ! i), Some (fst (rs' ! i)))"
        and bel: "below (snd (rs' ! i)) m"
        and le: "\<forall>j<length rs'. snd (rs' ! i) \<le> snd (rs' ! j)"
        and lt: "\<forall>j<i. snd (rs' ! i) < snd (rs' ! j)"
      have d: "snd (rs' ! i) < d" using not_below_le [OF bel False] .
      have a: "below (snd (rs ! Suc i)) m"
        using bel rs by simp
      have b: "\<forall>j<length rs. snd (rs ! Suc i) \<le> snd (rs ! j)"
        using le d rs pd by (auto simp: nth_Cons split: nat.splits)
      have c: "\<forall>j<Suc i. snd (rs ! Suc i) < snd (rs ! j)"
        using lt d rs pd by (auto simp: nth_Cons split: nat.splits)
      have "Suc i < length rs" using i rs by simp
      moreover have "midradius_loop vertices (e # es) (m, me, mp)
                 = Inr (Finite (snd (rs ! Suc i)), Some ((e # es) ! Suc i), Some (fst (rs ! Suc i)))"
        using step res rs by simp
      ultimately show ?thesis using a b c by blast
    qed
  qed
qed

lemma py_index_valid:
  assumes "valid_index xs i"
  shows "\<exists>x\<in>set xs. py_index xs i = Inr x"
proof (cases "0 \<le> i")
  case True
  then have "nat i < length xs" using assms by (simp add: valid_index_def)
  then show ?thesis using True assms by (simp add: py_index_def valid_index_def)
next
  case False
  then have "nat (int (length xs) + i) < length xs" using assms
    by (simp add: valid_index_def)
  then show ?thesis using False assms by (simp add: py_index_def valid_index_def)
qed

lemma closest_point_on_segment_total:
  assumes "length p1 = 3" and "length p2 = 3"
  shows "\<exists>r. closest_point_on_segment p1 p2 origin = Inr r"
  using assms by (simp add: closest_point_on_segment_def Let_def)

lemma edge_closest_total:
  assumes "valid_index vertices (fst e)" and "valid_index vertices (snd e)"
    and "\<forall>v\<in>set vertices. length v = 3"
  shows "\<exists>r. edge_closest vertices e = Inr r"
proof -
  obtain a b where e: "e = (a, b)" by (cases e)
  obtain p1 where p1: "p1 \<in> set vertices" "py_index vertices a = Inr p1"
    using py_index_valid [OF assms(1)] e by auto
  obtain p2 where p2: "p2 \<in> set vertices" "py_index vertices b = Inr p2"
    using py_index_valid [OF assms(2)] e by auto
  have "length p1 = 3" "length p2 = 3" using p1 p2 assms(3) by auto
  from closest_point_on_segment_total [OF this, of "[0, 0, 0]"]
  show ?thesis using p1 p2 e by (simp add: edge_closest_def)
qed

lemma edge_results_total:
  assumes "\<forall>e\<in>set edges. \<exists>r. edge_closest vertices e = Inr r"
  shows "\<exists>rs. map (edge_closest vertices) edges = map Inr rs"
  using assms
proof (induction edges)
  case Nil
  then show ?case by simp
next
  case (Cons e es)
  then obtain r rs where "edge_closest vertices e = Inr r"
    and "map (edge_closest vertices) es = map Inr rs" by auto
  then have "map (edge_closest vertices) (e # es) = map Inr (r # rs)" by simp
  then show ?case by blast
qed

text \<open>
  C2. For a non-empty edge list whose indices are valid positions of the vertex list (of
  3-D points), every edge evaluates to a closest point and a distance, and
  \<open>calculate_midradius\<close> returns the minimum of these distances together with the edge
  and the closest point that attained it. The running minimum moves only on a strict
  decrease, so the edge returned is the first one in iteration order whose distance is the
  minimum.
\<close>

theorem calculate_midradius_min:
  assumes nonempty: "edges \<noteq> []"
    and valid: "\<forall>e\<in>set edges. valid_index vertices (fst e) \<and> valid_index vertices (snd e)"
    and points: "\<forall>v\<in>set vertices. length v = 3"
  shows "\<exists>rs i. map (edge_closest vertices) edges = map Inr rs
           \<and> i < length edges
           \<and> snd (rs ! i) = Min (set (map snd rs))
           \<and> (\<forall>j<i. snd (rs ! j) \<noteq> Min (set (map snd rs)))
           \<and> calculate_midradius vertices edges
               = Inr (Finite (snd (rs ! i)), Some (edges ! i), Some (fst (rs ! i)))"
proof -
  have "\<forall>e\<in>set edges. \<exists>r. edge_closest vertices e = Inr r"
    using valid points edge_closest_total by blast
  then obtain rs where rs: "map (edge_closest vertices) edges = map Inr rs"
    using edge_results_total by blast
  have len: "length rs = length edges"
    using arg_cong [OF rs, of length] by simp
  then have ne: "rs \<noteq> []" using nonempty by auto
  have "0 < length rs" using ne by simp
  then have "\<not> (\<forall>j<length rs. \<not> below (snd (rs ! j)) Infinity)"
    by auto
  with midradius_loop_inv [OF rs, of Infinity None None]
  have "\<exists>i<length rs.
      midradius_loop vertices edges (Infinity, None, None)
        = Inr (Finite (snd (rs ! i)), Some (edges ! i), Some (fst (rs ! i)))
      \<and> below (snd (rs ! i)) Infinity
      \<and> (\<forall>j<length rs. snd (rs ! i) \<le> snd (rs ! j))
      \<and> (\<forall>j<i. snd (rs ! i) < snd (rs ! j))"
    by blast
  then obtain i where i: "i < length rs"
    and res: "midradius_loop vertices edges (Infinity, None, None)
                 = Inr (Finite (snd (rs ! i)), Some (edges ! i), Some (fst (rs ! i)))"
    and le: "\<forall>j<length rs. snd (rs ! i) \<le> snd (rs ! j)"
    and lt: "\<forall>j<i. snd (rs ! i) < snd (rs ! j)"
    by blast
  have "Min (set (map snd rs)) = snd (rs ! i)"
  proof (rule Min_eqI)
    show "finite (set (map snd rs))" by simp
    show "snd (rs ! i) \<in> set (map snd rs)" using i by simp
    fix y assume "y \<in> set (map snd rs)"
    then obtain j where "j < length rs" "y = snd (rs ! j)"
      by (auto simp: in_set_conv_nth)
    then show "snd (rs ! i) \<le> y" using le by simp
  qed
  then have m1: "snd (rs ! i) = Min (set (map snd rs))" by simp
  have m2: "\<forall>j<i. snd (rs ! j) \<noteq> Min (set (map snd rs))"
    using lt m1 by fastforce
  have i': "i < length edges" using i len by simp
  have fin: "calculate_midradius vertices edges
               = Inr (Finite (snd (rs ! i)), Some (edges ! i), Some (fst (rs ! i)))"
    using res by (simp add: calculate_midradius_def)
  show ?thesis
    using rs i' m1 m2 fin by (intro exI [of _ rs] exI [of _ i] conjI)
qed

theorem calculate_midradius_min_witness:
  "\<exists>rs i. map (edge_closest [[1, 0, 0], [0, 1, 0], [-1, 0, 0]]) [(0, 1), (1, 2)] = map Inr rs
           \<and> i < length [(0, 1), (1, 2) :: edge]
           \<and> snd (rs ! i) = Min (set (map snd rs))
           \<and> (\<forall>j<i. snd (rs ! j) \<noteq> Min (set (map snd rs)))
           \<and> calculate_midradius [[1, 0, 0], [0, 1, 0], [-1, 0, 0]] [(0, 1), (1, 2)]
               = Inr (Finite (snd (rs ! i)), Some ([(0, 1), (1, 2)] ! i), Some (fst (rs ! i)))"
proof -
  have a: "[(0, 1), (1, 2) :: edge] \<noteq> []" by simp
  have b: "\<forall>e\<in>set [(0, 1), (1, 2) :: edge].
      valid_index [[1, 0, 0], [0, 1, 0], [-1, 0, 0 :: real]] (fst e)
      \<and> valid_index [[1, 0, 0], [0, 1, 0], [-1, 0, 0 :: real]] (snd e)"
    by (simp add: valid_index_def)
  have c: "\<forall>v\<in>set [[1, 0, 0], [0, 1, 0], [-1, 0, 0 :: real]]. length v = 3"
    by simp
  show ?thesis by (rule calculate_midradius_min [OF a b c])
qed

lemma fold_insert_image: "fold (\<lambda>i s. insert (f i) s) xs s = s \<union> f ` set xs"
  by (induction xs arbitrary: s) auto

lemma fold_union: "fold (\<lambda>x s. s \<union> h x) xs s = s \<union> (\<Union>x \<in> set xs. h x)"
  by (induction xs arbitrary: s) auto

lemma canonical_pairs_Union:
  "canonical_pairs faces = (\<Union>face \<in> set faces.
           (\<lambda>i. (min (face ! i) (face ! ((i + 1) mod length face)),
                  max (face ! i) (face ! ((i + 1) mod length face)))) ` set [0..<length face])"
  unfolding canonical_pairs_def by (auto, blast)

lemma edges_set_eq:
  "fold (\<lambda>face. fold (\<lambda>i. insert (min (face ! i) (face ! ((i + 1) mod length face)),
                                    max (face ! i) (face ! ((i + 1) mod length face))))
                      [0..<length face])
        faces {} = canonical_pairs faces"
  unfolding fold_insert_image canonical_pairs_Union fold_union by simp

lemma finite_canonical_pairs: "finite (canonical_pairs faces)"
  unfolding canonical_pairs_Union by simp

lemma edge_before_less: "edge_before e1 e2 = (e1 < e2)"
  by (cases e1; cases e2) (auto simp: edge_before_def less_prod_def)

text \<open>
  C3. \<open>faces_to_edges\<close> returns exactly the canonical pairs \<open>(min v1 v2, max v1 v2)\<close> of the
  consecutive index pairs of each face (wrap-around included), without duplicates, in
  strictly ascending order by (first index, second index); a face with exactly two indices
  contributes exactly one edge.
\<close>

theorem faces_to_edges_spec:
  "set (faces_to_edges faces) = canonical_pairs faces
   \<and> distinct (faces_to_edges faces)
   \<and> sorted_wrt edge_before (faces_to_edges faces)
   \<and> faces_to_edges [[a, b]] = [(min a b, max a b)]"
proof -
  have eq: "faces_to_edges fs = sorted_list_of_set (canonical_pairs fs)" for fs
    unfolding faces_to_edges_def Let_def edges_set_eq ..
  have two: "canonical_pairs [[a, b]] = {(min a b, max a b)}"
    unfolding canonical_pairs_Union by (simp add: min.commute max.commute)
  have "sorted_wrt (<) (faces_to_edges faces)"
    unfolding eq by (rule strict_sorted_list_of_set)
  then have "sorted_wrt edge_before (faces_to_edges faces)"
    using edge_before_less by (simp add: sorted_wrt_iff_nth_less)
  then show ?thesis
    using finite_canonical_pairs [of faces] by (simp add: eq two)
qed

theorem faces_to_edges_spec_witness:
  "set (faces_to_edges [[0, 1, 2], [2, 1, 3]]) = canonical_pairs [[0, 1, 2], [2, 1, 3]]
   \<and> faces_to_edges [[0, 1, 2], [2, 1, 3]] = [(0, 1), (0, 2), (1, 2), (1, 3), (2, 3)]
   \<and> faces_to_edges [[4, 7]] = [(4, 7)]"
proof -
  have "faces_to_edges [[0, 1, 2], [2, 1, 3]] = [(0, 1), (0, 2), (1, 2), (1, 3), (2, 3)]"
    by code_simp
  then show ?thesis
    using faces_to_edges_spec [of "[[0, 1, 2], [2, 1, 3]]" 4 7] by simp
qed

lemma midradius_loop_conv_step:
  "midradius_loop_conv vertices ((a, b) # edges) m =
     (case edge_closest vertices (a, b) of
        Inl err \<Rightarrow> Inl err
      | Inr r \<Rightarrow>
          midradius_loop_conv vertices edges (if below (snd r) m then Finite (snd r) else m))"
proof (cases "py_index vertices a")
  case (Inl err)
  then show ?thesis by (simp add: edge_closest_def)
next
  case p1: (Inr p1)
  show ?thesis
  proof (cases "py_index vertices b")
    case (Inl err)
    then show ?thesis using p1 by (simp add: edge_closest_def)
  next
    case p2: (Inr p2)
    show ?thesis
      using p1 p2
      by (simp add: edge_closest_def closest_point_on_segment_def Let_def)
  qed
qed

lemma midradius_loop_conv_eq:
  "midradius_loop_conv vertices edges m =
     (case midradius_loop vertices edges (m, me, mp) of
        Inl err \<Rightarrow> Inl err
      | Inr best \<Rightarrow> Inr (fst best))"
proof (induction edges arbitrary: m me mp)
  case Nil
  then show ?case by simp
next
  case (Cons e es)
  obtain a b where e: "e = (a, b)" by (cases e)
  show ?case
  proof (cases "edge_closest vertices (a, b)")
    case (Inl err)
    then show ?thesis unfolding e midradius_loop_conv_step by simp
  next
    case (Inr r)
    obtain p d where r: "r = (p, d)" by (cases r)
    show ?thesis
    proof (cases "below d m")
      case True
      then show ?thesis
        unfolding e midradius_loop_conv_step
        using Inr r Cons.IH [of "Finite d" "Some (a, b)" "Some p"] by simp
    next
      case False
      then show ?thesis
        unfolding e midradius_loop_conv_step
        using Inr r Cons.IH [of m me mp] by simp
    qed
  qed
qed

lemma cube_edges:
  "faces_to_edges cube_faces =
     [(0, 1), (0, 3), (0, 4), (1, 2), (1, 5), (2, 3), (2, 6), (3, 7), (4, 5), (4, 7), (5, 6), (6, 7)]"
  unfolding cube_faces_def by code_simp


lemma cube_midradius:
  "calculate_midradius cube_vertices
     [(0, 1), (0, 3), (0, 4), (1, 2), (1, 5), (2, 3), (2, 6), (3, 7), (4, 5), (4, 7), (5, 6), (6, 7)]
   = Inr (Finite (sqrt ((1/2)\<^sup>2 + (1/2)\<^sup>2)), Some (0, 1), Some [0, -1/2, -1/2])"
  by (simp add: calculate_midradius_def cube_vertices_def edge_closest_def py_index_def
      closest_point_on_segment_triple edge_len_sq3_def segment_param_def point_at_def norm3_def
      power2_eq_square)


text \<open>
  C7. For the cube fixture \<open>faces_to_edges\<close> yields exactly 12 edges, and the midradius of
  the unnormalised cube is \<open>sqrt (0.5\<^sup>2 + 0.5\<^sup>2)\<close>, between 0.7071 and 0.7072; it is attained
  at the midpoint (\<open>t = 0.5\<close>) of the first edge, as the calculator of
  \<^verbatim>\<open>calculate_midradius.py\<close> reports.
\<close>

theorem cube_fixture:
  "length (faces_to_edges cube_faces) = 12
   \<and> calculate_midradius_conv cube_vertices (faces_to_edges cube_faces)
       = Inr (Finite (sqrt ((1/2)\<^sup>2 + (1/2)\<^sup>2)))
   \<and> calculate_midradius cube_vertices (faces_to_edges cube_faces)
       = Inr (Finite (sqrt ((1/2)\<^sup>2 + (1/2)\<^sup>2)), Some (0, 1),
              Some (point_at (cube_vertices ! 0) (cube_vertices ! 1) (1/2)))
   \<and> segment_param (cube_vertices ! 0) (cube_vertices ! 1) = 1/2
   \<and> 7071 / 10000 < sqrt ((1/2)\<^sup>2 + (1/2)\<^sup>2)
   \<and> sqrt ((1/2)\<^sup>2 + (1/2)\<^sup>2) < 7072 / 10000"
proof -
  have pt: "point_at (cube_vertices ! 0) (cube_vertices ! 1) (1/2) = [0, -1/2, -1/2]"
    by (simp add: cube_vertices_def point_at_def)
  have par: "segment_param (cube_vertices ! 0) (cube_vertices ! 1) = 1/2"
    by (simp add: cube_vertices_def segment_param_def edge_len_sq3_def power2_eq_square)
  have conv: "calculate_midradius_conv cube_vertices (faces_to_edges cube_faces)
       = Inr (Finite (sqrt ((1/2)\<^sup>2 + (1/2)\<^sup>2)))"
    unfolding calculate_midradius_conv_def
      midradius_loop_conv_eq [of _ _ _ None None]
      calculate_midradius_def [symmetric] cube_edges cube_midradius
    by simp
  have lo: "7071 / 10000 < sqrt ((1/2)\<^sup>2 + (1/2)\<^sup>2)"
    by (rule real_less_rsqrt) (simp add: power2_eq_square)
  have hi: "sqrt ((1/2)\<^sup>2 + (1/2)\<^sup>2) < 7072 / 10000"
    by (rule real_less_lsqrt) (simp_all add: power2_eq_square)
  show ?thesis
    using conv lo hi par
    by (simp only: cube_edges cube_midradius pt) simp
qed















lemma length_sub3: "length (sub3 v c) = 3"
  by (simp add: sub3_def)









lemma scale_up_pow:
  "0 < m \<Longrightarrow> 2 ^ 52 \<le> m * 2 ^ k \<Longrightarrow> m * 2 ^ k < 2 ^ 53 \<Longrightarrow> scale_up m = 1 / 2 ^ k"
proof (induction k arbitrary: m)
  case 0
  then show ?case by (simp add: scale_up.simps [of m])
next
  case (Suc k)
  have "(1 :: real) \<le> 2 ^ k" by simp
  then have "m * 2 \<le> m * 2 * 2 ^ k" using Suc.prems(1) by simp
  then have small: "m < 2 ^ 52" using Suc.prems(3) by simp
  have "scale_up (m * 2) = 1 / 2 ^ k"
    using Suc.prems by (intro Suc.IH) (simp_all add: mult.assoc)
  then show ?case
    using Suc.prems(1) small by (simp add: scale_up.simps [of m])
qed

lemma scale_down_pow:
  "2 ^ 52 \<le> m / 2 ^ k \<Longrightarrow> m / 2 ^ k < 2 ^ 53 \<Longrightarrow> 0 < k \<Longrightarrow> scale_down m = 2 ^ k"
proof (induction k arbitrary: m)
  case 0
  then show ?case by simp
next
  case (Suc k)
  have big: "2 ^ 53 \<le> m"
  proof -
    have "(1 :: real) \<le> 2 ^ k" by simp
    have "2 ^ 52 * 2 ^ Suc k \<le> m" using Suc.prems(1) by (simp add: field_simps)
    moreover have "(2 :: real) ^ 53 \<le> 2 ^ 52 * 2 ^ Suc k" using \<open>1 \<le> 2 ^ k\<close> by simp
    ultimately show ?thesis by linarith
  qed
  show ?case
  proof (cases "k = 0")
    case True
    then have "m / 2 < 2 ^ 53" using Suc.prems(2) by simp
    then have "scale_down (m / 2) = 1" by (simp add: scale_down.simps [of "m / 2"])
    then show ?thesis using big True by (simp add: scale_down.simps [of m])
  next
    case False
    have "scale_down (m / 2) = 2 ^ k"
      using Suc.prems False by (intro Suc.IH) (simp_all add: field_simps)
    then show ?thesis using big by (simp add: scale_down.simps [of m])
  qed
qed

lemma fl_zero: "fl 0 = 0"
  by (simp add: fl_def round_half_even_def)

lemma fl_small:
  assumes "x \<noteq> 0" and "2 ^ 52 \<le> \<bar>x\<bar> * 2 ^ k" and "\<bar>x\<bar> * 2 ^ k < 2 ^ 53"
  shows "fl x = real_of_int (round_half_even (x * 2 ^ k)) / 2 ^ k"
proof -
  have "(1 :: real) \<le> 2 ^ k" by simp
  then have "\<bar>x\<bar> \<le> \<bar>x\<bar> * 2 ^ k" by (simp add: mult_le_cancel_left1)
  then have lt: "\<not> 2 ^ 53 \<le> \<bar>x\<bar>" using assms(3) by linarith
  have "scale_up \<bar>x\<bar> = 1 / 2 ^ k"
    using assms by (intro scale_up_pow) simp_all
  then show ?thesis using lt by (simp add: fl_def Let_def)
qed

lemma fl_big:
  assumes "2 ^ 52 \<le> \<bar>x\<bar> / 2 ^ k" and "\<bar>x\<bar> / 2 ^ k < 2 ^ 53" and "0 < k"
  shows "fl x = real_of_int (round_half_even (x / 2 ^ k)) * 2 ^ k"
proof -
  have "(2 :: real) \<le> 2 ^ k" using assms(3) by (cases k) simp_all
  have "2 ^ 52 * 2 ^ k \<le> \<bar>x\<bar>" using assms(1) by (simp add: field_simps)
  moreover have "(2 :: real) ^ 53 \<le> 2 ^ 52 * 2 ^ k" using \<open>2 \<le> 2 ^ k\<close> by simp
  ultimately have big: "2 ^ 53 \<le> \<bar>x\<bar>" by linarith
  have "scale_down \<bar>x\<bar> = 2 ^ k"
    using assms by (intro scale_down_pow)
  then show ?thesis using big by (simp add: fl_def Let_def)
qed

lemma fl_values:
  "fl 13510798882111492 = 13510798882111492"
  "fl 27021597764222984 = 27021597764222984"
  "fl 40532396646334476 = 40532396646334480"
  "fl (40532396646334480 / 3) = 13510798882111494"
  "fl (- 2) = - 2" "fl 4 = 4" "fl 2 = 2" "fl (- 1) = - 1"
proof -
  show "fl 13510798882111492 = 13510798882111492"
    by (subst fl_big [of _ 1]) (simp_all add: round_half_even_def)
  show "fl 27021597764222984 = 27021597764222984"
    by (subst fl_big [of _ 2]) (simp_all add: round_half_even_def)
  show "fl 40532396646334476 = 40532396646334480"
    by (subst fl_big [of _ 3]) (simp_all add: round_half_even_def)
  show "fl (40532396646334480 / 3) = 13510798882111494"
    by (subst fl_big [of _ 1]) (simp_all add: round_half_even_def)
  show "fl (- 2) = - 2"
    by (subst fl_small [of _ 51]) (simp_all add: round_half_even_def)
  show "fl 4 = 4"
    by (subst fl_small [of _ 50]) (simp_all add: round_half_even_def)
  show "fl 2 = 2"
    by (subst fl_small [of _ 51]) (simp_all add: round_half_even_def)
  show "fl (- 1) = - 1"
    by (subst fl_small [of _ 52]) (simp_all add: round_half_even_def)
qed







lemma normalize_vertices_rounded_integers:
  "normalize_vertices binary64
     [[13510798882111492, 0, 0], [13510798882111492, 0, 0], [13510798882111492, 0, 0]]
   = Inr [[- 1, 0, 0], [- 1, 0, 0], [- 1, 0, 0]]"
  by (simp add: normalize_vertices_def range3 py_sum_def binary64_def fl_values fl_zero)


text \<open>
  C5 (the code departs from the claim). The decoder raises on a line that matches its
  section's pattern but whose captured text is not a float literal: the class
  \<^verbatim>\<open>[-\d.]+\<close> lets \<^verbatim>\<open>1.2.3\<close> through and \<^verbatim>\<open>float('1.2.3')\<close> raises \<^verbatim>\<open>ValueError\<close>.
\<close>

theorem parse_polyhedron_file_raises:
  "parse_polyhedron_file ''VERTICES:\<newline>0:1.2.3,0,0'' = Inl ValueError"
  by code_simp

lemma parse_line_blank:
  "strip raw = [] \<Longrightarrow> parse_line st raw = Inr st"
  by (cases st) (simp add: parse_line_def startswith_def)

lemma parse_line_unmatched:
  assumes "\<not> startswith (strip raw) ''VERTICES:''" and "\<not> startswith (strip raw) ''EDGES:''"
    and "\<not> startswith (strip raw) ''MIDRADIUS:''"
    and "match_vertex (strip raw) = None" and "match_edge (strip raw) = None"
    and "match_midradius (strip raw) = None"
  shows "parse_line st raw = Inr st"
  using assms
  by (cases st) (simp add: parse_line_def Let_def split: option.splits sect.splits)

text \<open>
  C6 (amended). \<open>calculate_midradius\<close> does not check for emptiness: with an empty edge list
  it returns the initial values \<open>(inf, None, None)\<close> whatever the vertex list, and with an
  empty vertex list and a non-empty edge list the first lookup raises \<^verbatim>\<open>IndexError\<close>. The
  batch driver checks after decoding and skips a record without vertices or without edges.
\<close>

theorem calculate_midradius_empty:
  "calculate_midradius vertices [] = Inr (Infinity, None, None)
   \<and> calculate_midradius [] (edge # edges) = Inl IndexError
   \<and> (parse_polyhedron_file content = Inr (vs, es, old) \<and> (vs = [] \<or> es = [])
        \<longrightarrow> process_file content = Skipped)"
proof (intro conjI impI)
  show "calculate_midradius vertices [] = Inr (Infinity, None, None)"
    by (simp add: calculate_midradius_def)
  have none: "py_index ([] :: real list list) i = Inl IndexError" for i
    by (auto simp: py_index_def)
  show "calculate_midradius [] (edge # edges) = Inl IndexError"
    by (cases edge) (simp add: calculate_midradius_def edge_closest_def none)
  assume "parse_polyhedron_file content = Inr (vs, es, old) \<and> (vs = [] \<or> es = [])"
  then show "process_file content = Skipped"
    by (auto simp: process_file_def)
qed

theorem calculate_midradius_empty_witness:
  "parse_polyhedron_file ''EDGES:\<newline>0:0,1'' = Inr ([], [(0, 1)], None)
   \<and> process_file ''EDGES:\<newline>0:0,1'' = Skipped
   \<and> calculate_midradius [] [(0, 1)] = Inl IndexError"
proof -
  have p: "parse_polyhedron_file ''EDGES:\<newline>0:0,1'' = Inr ([], [(0, 1)], None)"
    by code_simp
  show ?thesis
    using p calculate_midradius_empty [of _ "(0, 1)" "[]" "''EDGES:\<newline>0:0,1''" "[]" "[(0, 1)]" None]
    by simp
qed

theorem calculate_midradius_empty_counterexample:
  "calculate_midradius [] [] = Inr (Infinity, None, None)
   \<and> calculate_midradius [[0, 0, 0]] [] = Inr (Infinity, None, None)
   \<and> \<not> (\<exists>err. calculate_midradius [] [] = Inl err)"
  by (simp add: calculate_midradius_def)

lemma fmt4_one: "fmt4 1 = ''1.0000''"
  by (simp add: fmt4_def round_half_even_def str_nat.simps digit_char_def)

text \<open>
  C10. When no match of the pattern \<^verbatim>\<open>(MIDRADIUS:\s*\n)([\d.]+)\<close> starts anywhere in the
  content (no \<^verbatim>\<open>MIDRADIUS:\<close> header followed, after optional whitespace and a newline, by
  digits or dots), \<open>update_midradius_in_file\<close> writes back exactly what it read, and
  nothing in it can raise: the update is a silent no-op. The digits or dots need not fill
  their line: a line that begins with one is matched.
\<close>

theorem update_midradius_no_match:
  assumes "\<not> has_midradius_match content"
  shows "update_midradius_in_file content new_midradius = content"
proof -
  have "re_sub r s = s" if "\<not> has_midradius_match s" for r s
    using that by (induction s) (auto simp: re_sub.simps)
  then show ?thesis
    using assms by (simp add: update_midradius_in_file_def)
qed

theorem update_midradius_no_match_witness:
  "\<not> has_midradius_match ''VERTICES:\<newline>0:1,2,3\<newline>MIDRADIUS:\<newline>none''
   \<and> update_midradius_in_file ''VERTICES:\<newline>0:1,2,3\<newline>MIDRADIUS:\<newline>none'' (Finite 1)
       = ''VERTICES:\<newline>0:1,2,3\<newline>MIDRADIUS:\<newline>none''"
proof -
  have h: "\<not> has_midradius_match ''VERTICES:\<newline>0:1,2,3\<newline>MIDRADIUS:\<newline>none''"
    by code_simp
  show ?thesis
    using h update_midradius_no_match [OF h, of "Finite 1"] by simp
qed

text \<open>
  C10 as stated fails: the line after the header below is not a line of digits and dots,
  yet the pattern matches its first character and the update rewrites it.
\<close>

theorem update_midradius_partial_line_counterexample:
  "\<not> header_with_number_line ''MIDRADIUS:\<newline>5x''
   \<and> update_midradius_in_file ''MIDRADIUS:\<newline>5x'' (Finite 1) = ''MIDRADIUS:\<newline>1.0000x''
   \<and> update_midradius_in_file ''MIDRADIUS:\<newline>5x'' (Finite 1) \<noteq> ''MIDRADIUS:\<newline>5x''"
proof -
  have a: "\<not> header_with_number_line ''MIDRADIUS:\<newline>5x''"
    by code_simp
  have b: "update_midradius_in_file ''MIDRADIUS:\<newline>5x'' (Finite 1) = ''MIDRADIUS:\<newline>1.0000x''"
    by (simp add: fmt4_one update_midradius_in_file_def re_sub.simps midradius_match_def
        startswith_def is_space_def is_numdot_def is_digit_def newline_def)
  show ?thesis using a unfolding b by simp
qed

lemma re_sub_no_match: "\<not> has_midradius_match s \<Longrightarrow> re_sub r s = s"
  by (induction s) (auto simp: re_sub.simps)

lemma re_sub_prefix:
  "no_match_before (length pre) (pre @ s) \<Longrightarrow> re_sub r (pre @ s) = pre @ re_sub r s"
  by (induction pre) (auto simp: re_sub.simps)

lemma space_not_numdot: "is_numdot c \<Longrightarrow> \<not> is_space c"
  by (auto simp: is_numdot_def is_space_def is_digit_def)

lemma takeWhile_all: "list_all P xs \<Longrightarrow> (ys = [] \<or> \<not> P (hd ys)) \<Longrightarrow> takeWhile P (xs @ ys) = xs"
  by (induction xs) (auto simp: takeWhile_eq_Nil_iff)

lemma dropWhile_all: "list_all P xs \<Longrightarrow> dropWhile P (xs @ ys) = dropWhile P ys"
  by (induction xs) auto

lemma dropWhile_stop: "ys = [] \<or> \<not> P (hd ys) \<Longrightarrow> dropWhile P ys = ys"
  by (cases ys) auto

lemma midradius_match_header:
  assumes ws: "list_all is_space ws"
    and num: "num \<noteq> []" "list_all is_numdot num"
    and post: "post = [] \<or> \<not> is_numdot (hd post)"
  shows "midradius_match (''MIDRADIUS:'' @ ws @ [newline] @ num @ post) = Some post"
proof -
  have nl: "is_space newline" by (simp add: is_space_def newline_def)
  have ws': "list_all is_space (ws @ [newline])" using ws nl by simp
  have stop: "num @ post = [] \<or> \<not> is_space (hd (num @ post))"
    using num space_not_numdot [of "hd num"] by (cases num) auto
  have tw: "takeWhile is_space ((ws @ [newline]) @ num @ post) = ws @ [newline]"
    by (rule takeWhile_all [OF ws' stop])
  have dw: "dropWhile is_space ((ws @ [newline]) @ num @ post) = num @ post"
    using dropWhile_all [OF ws'] dropWhile_stop [of "num @ post" is_space, OF stop] by simp
  have tn: "takeWhile is_numdot (num @ post) = num"
    by (rule takeWhile_all [OF num(2) post])
  have dn: "dropWhile is_numdot (num @ post) = post"
    using dropWhile_all [OF num(2)] dropWhile_stop [of post is_numdot, OF post] by simp
  have dr: "drop (length ''MIDRADIUS:'') (''MIDRADIUS:'' @ ws @ [newline] @ num @ post)
      = (ws @ [newline]) @ num @ post"
    by simp
  have sw: "startswith (''MIDRADIUS:'' @ ws @ [newline] @ num @ post) ''MIDRADIUS:''"
    by (simp add: startswith_def)
  show ?thesis
    unfolding midradius_match_def Let_def dr tw dw tn dn
    using sw num(1) by simp
qed

text \<open>
  C9 (amended). When the first match of the pattern is a \<^verbatim>\<open>MIDRADIUS:\<close> header, optional
  whitespace \<open>ws\<close>, a newline and a run \<open>num\<close> of digits and dots, and no further match
  follows, the content written is the text before the header, the header rewritten as
  \<^verbatim>\<open>MIDRADIUS:\<close> and a newline, the new value formatted to 4 decimals, and the text after the
  number: the text before and after is unchanged, and the header line is unchanged when it
  is exactly \<^verbatim>\<open>MIDRADIUS:\<close> (\<open>ws = []\<close>).
\<close>

theorem update_midradius_frame:
  assumes ws: "list_all is_space ws"
    and num: "num \<noteq> []" "list_all is_numdot num"
    and post: "post = [] \<or> \<not> is_numdot (hd post)"
    and first: "no_match_before (length pre) (pre @ ''MIDRADIUS:'' @ ws @ [newline] @ num @ post)"
    and rest: "\<not> has_midradius_match post"
  shows "update_midradius_in_file (pre @ ''MIDRADIUS:'' @ ws @ [newline] @ num @ post) new_midradius
           = pre @ ''MIDRADIUS:'' @ [newline] @ fmt_float new_midradius @ post"
proof -
  let ?s = "''MIDRADIUS:'' @ ws @ [newline] @ num @ post"
  let ?r = "''MIDRADIUS:'' @ [newline] @ fmt_float new_midradius"
  have m: "midradius_match ?s = Some post"
    by (rule midradius_match_header [OF ws num post])
  obtain c cs where s: "?s = c # cs" by simp
  have "re_sub ?r ?s = ?r @ re_sub ?r post"
    using m unfolding s by (simp add: re_sub.simps)
  also have "\<dots> = ?r @ post"
    by (simp only: re_sub_no_match [OF rest])
  finally have "re_sub ?r (pre @ ?s) = pre @ ?r @ post"
    using re_sub_prefix [OF first] by simp
  then show ?thesis
    by (simp add: update_midradius_in_file_def)
qed

theorem update_midradius_frame_witness:
  "update_midradius_in_file ''VERTICES:\<newline>0:1,0,0\<newline>EDGES:\<newline>0:0,0\<newline>MIDRADIUS:\<newline>0.5\<newline>'' (Finite 1)
     = ''VERTICES:\<newline>0:1,0,0\<newline>EDGES:\<newline>0:0,0\<newline>MIDRADIUS:\<newline>1.0000\<newline>''
   \<and> update_midradius_in_file ''EDGES:\<newline>MIDRADIUS: \<newline>0.5'' (Finite 1)
     = ''EDGES:\<newline>MIDRADIUS:\<newline>1.0000''"
proof -
  have a1: "list_all is_space []" and a2: "''0.5'' \<noteq> []" and a3: "list_all is_numdot ''0.5''"
    and a4: "''\<newline>'' = [] \<or> \<not> is_numdot (hd ''\<newline>'')"
    and a5: "no_match_before (length ''VERTICES:\<newline>0:1,0,0\<newline>EDGES:\<newline>0:0,0\<newline>'')
        (''VERTICES:\<newline>0:1,0,0\<newline>EDGES:\<newline>0:0,0\<newline>'' @ ''MIDRADIUS:'' @ [] @ [newline] @ ''0.5'' @ ''\<newline>'')"
    and a6: "\<not> has_midradius_match ''\<newline>''"
    by code_simp+
  have b1: "list_all is_space '' ''" and b4: "[] = [] \<or> \<not> is_numdot (hd [])"
    and b5: "no_match_before (length ''EDGES:\<newline>'')
        (''EDGES:\<newline>'' @ ''MIDRADIUS:'' @ '' '' @ [newline] @ ''0.5'' @ [])"
    and b6: "\<not> has_midradius_match []"
    by code_simp+
  show ?thesis
    using update_midradius_frame [OF a1 a2 a3 a4 a5 a6, of "Finite 1"]
      update_midradius_frame [OF b1 a2 a3 b4 b5 b6, of "Finite 1"]
    by (simp add: fmt4_one newline_def)
qed

text \<open>
  C9 as stated fails on a header line with trailing whitespace: the header is rewritten
  without it, so more than the number changes.
\<close>

theorem update_midradius_header_counterexample:
  "update_midradius_in_file ''VERTICES:\<newline>EDGES:\<newline>MIDRADIUS: \<newline>0.5'' (Finite 1)
     \<noteq> ''VERTICES:\<newline>EDGES:\<newline>MIDRADIUS: \<newline>1.0000''"
proof -
  have "update_midradius_in_file ''VERTICES:\<newline>EDGES:\<newline>MIDRADIUS: \<newline>0.5'' (Finite 1)
     = ''VERTICES:\<newline>EDGES:\<newline>MIDRADIUS:\<newline>1.0000''"
    by (simp add: fmt4_one update_midradius_in_file_def re_sub.simps midradius_match_def
        startswith_def is_space_def is_numdot_def is_digit_def newline_def)
  then show ?thesis by simp
qed


subsection \<open>Round trip of the codec\<close>

lemma digit_cases: "d < 10 \<Longrightarrow> d \<in> {0, 1, 2, 3, 4, 5, 6, 7, 8, 9 :: nat}"
  by auto

lemma is_digit_digit_char: "d < 10 \<Longrightarrow> is_digit (digit_char d)"
  using digit_cases [of d] by (auto simp: is_digit_def digit_char_def)

lemma digit_val_digit_char: "d < 10 \<Longrightarrow> digit_val (digit_char d) = d"
  using digit_cases [of d] by (auto simp: digit_val_def digit_char_def)

lemma nat_of_digits_snoc: "nat_of_digits (xs @ [c]) = 10 * nat_of_digits xs + digit_val c"
  by (simp add: nat_of_digits_def)

lemma str_nat_digits: "list_all is_digit (str_nat n) \<and> str_nat n \<noteq> []"
proof (induction n rule: str_nat.induct)
  case (1 n)
  show ?case
  proof (cases "n < 10")
    case True
    then show ?thesis by (simp add: str_nat.simps [of n] is_digit_digit_char)
  next
    case False
    then show ?thesis
      using "1.IH" by (simp add: str_nat.simps [of n] is_digit_digit_char)
  qed
qed

lemma nat_of_digits_str_nat: "nat_of_digits (str_nat n) = n"
proof (induction n rule: str_nat.induct)
  case (1 n)
  show ?case
  proof (cases "n < 10")
    case True
    then show ?thesis
      by (simp add: str_nat.simps [of n] nat_of_digits_def digit_val_digit_char)
  next
    case False
    then show ?thesis
      using "1.IH" by (simp add: str_nat.simps [of n] nat_of_digits_snoc digit_val_digit_char)
  qed
qed

lemma frac4_digits: "list_all is_digit (frac4 n) \<and> length (frac4 n) = 4"
  by (simp add: frac4_def is_digit_digit_char)

lemma nat_of_digits_frac4: "nat_of_digits (frac4 n) = n mod 10000"
proof -
  have "nat_of_digits (frac4 n)
      = 1000 * (n div 1000 mod 10) + 100 * (n div 100 mod 10) + 10 * (n div 10 mod 10) + n mod 10"
    by (simp add: frac4_def nat_of_digits_def digit_val_digit_char)
  also have "\<dots> = n mod 10000"
    using mod_mult2_eq [of n 1000 10] mod_mult2_eq [of n 100 10] mod_mult2_eq [of n 10 10]
    by simp
  finally show ?thesis .
qed

lemma fmt4_shape:
  "fmt4 x = (if x < 0 then ''-'' else []) @ str_nat (nat (round_half_even (\<bar>x\<bar> * 10000)) div 10000)
            @ ''.'' @ frac4 (nat (round_half_even (\<bar>x\<bar> * 10000)))"
  by (simp add: fmt4_def frac4_def Let_def)

lemma round_half_even_nonneg: "0 \<le> y \<Longrightarrow> 0 \<le> round_half_even y"
  by (auto simp: round_half_even_def Let_def)

lemma round_half_even_of_int: "round_half_even (of_int k) = k"
  by (simp add: round_half_even_def)

lemma round_half_even_minus: "round_half_even (- y) = - round_half_even y"
proof (cases "of_int \<lfloor>y\<rfloor> = y")
  case True
  then obtain k where k: "y = of_int k" by metis
  have "round_half_even (- of_int k) = - k"
    using round_half_even_of_int [of "- k"] by simp
  then show ?thesis
    by (simp add: k round_half_even_of_int)
next
  case False
  have lo: "of_int \<lfloor>y\<rfloor> < y" using False of_int_floor_le [of y] by linarith
  have hi: "y < of_int \<lfloor>y\<rfloor> + 1" by linarith
  have cast: "real_of_int (- \<lfloor>y\<rfloor> - 1) = - real_of_int \<lfloor>y\<rfloor> - 1" by simp
  have "real_of_int (- \<lfloor>y\<rfloor> - 1) \<le> - y" unfolding cast using hi by linarith
  moreover have "- y < real_of_int (- \<lfloor>y\<rfloor> - 1) + 1" unfolding cast using lo by linarith
  ultimately have fl: "\<lfloor>- y\<rfloor> = - \<lfloor>y\<rfloor> - 1"
    by (rule floor_unique)
  define f where "f = \<lfloor>y\<rfloor>"
  define r where "r = y - of_int f"
  have r: "0 < r" "r < 1" unfolding r_def f_def using lo hi by linarith+
  have r': "- y - of_int (- f - 1) = 1 - r" by (simp add: r_def)
  have ev: "even (- f - 1) \<longleftrightarrow> odd f" by simp
  show ?thesis
    unfolding round_half_even_def Let_def fl f_def [symmetric] r' r_def [symmetric] ev
    using r by auto
qed

lemma real_div_mod: "real (n div 10000) + real (n mod 10000) / 10000 = real n / 10000"
proof -
  have "real n = real (n div 10000 * 10000 + n mod 10000)" by simp
  then have "real n = real (n div 10000) * 10000 + real (n mod 10000)"
    by (simp only: of_nat_add of_nat_mult of_nat_numeral)
  then show ?thesis by simp
qed

lemma not_digit_chars: "\<not> is_digit (CHR ''.'')" "\<not> is_digit (CHR ''-'')" "\<not> is_digit (CHR '','')"
  "\<not> is_digit (CHR '':'')"
  by (simp_all add: is_digit_def)

lemma dropWhile_all_stop:
  "list_all P xs \<Longrightarrow> (ys = [] \<or> \<not> P (hd ys)) \<Longrightarrow> dropWhile P (xs @ ys) = ys"
  by (induction xs) (auto simp: dropWhile_eq_self_iff)

lemma py_float_unsigned:
  assumes ip: "list_all is_digit ip" "ip \<noteq> []" and fp: "list_all is_digit fp"
  shows "py_float (ip @ ''.'' @ fp)
           = Inr (real (nat_of_digits ip) + real (nat_of_digits fp) / 10 ^ length fp)"
proof -
  have hd: "hd (ip @ ''.'' @ fp) \<noteq> CHR ''-''"
    using ip not_digit_chars(2) by (cases ip) auto
  have stop: "''.'' @ fp = [] \<or> \<not> is_digit (hd (''.'' @ fp))"
    by (simp add: not_digit_chars)
  have tw: "takeWhile is_digit (ip @ ''.'' @ fp) = ip"
    by (rule takeWhile_all [OF ip(1) stop])
  have dw: "dropWhile is_digit (ip @ ''.'' @ fp) = ''.'' @ fp"
    by (rule dropWhile_all_stop [OF ip(1) stop])
  show ?thesis
    unfolding py_float_def Let_def
    using hd tw dw ip(2) fp by simp
qed

lemma py_float_signed:
  assumes ip: "list_all is_digit ip" "ip \<noteq> []" and fp: "list_all is_digit fp"
  shows "py_float (''-'' @ ip @ ''.'' @ fp)
           = Inr (- (real (nat_of_digits ip) + real (nat_of_digits fp) / 10 ^ length fp))"
proof -
  have stop: "''.'' @ fp = [] \<or> \<not> is_digit (hd (''.'' @ fp))"
    by (simp add: not_digit_chars)
  have tw: "takeWhile is_digit (ip @ ''.'' @ fp) = ip"
    by (rule takeWhile_all [OF ip(1) stop])
  have dw: "dropWhile is_digit (ip @ ''.'' @ fp) = ''.'' @ fp"
    by (rule dropWhile_all_stop [OF ip(1) stop])
  show ?thesis
    unfolding py_float_def Let_def
    using tw dw ip(2) fp by simp
qed

lemma py_float_fmt4: "py_float (fmt4 x) = Inr (round4 x)"
proof -
  define n where "n = nat (round_half_even (\<bar>x\<bar> * 10000))"
  have ip: "list_all is_digit (str_nat (n div 10000))" "str_nat (n div 10000) \<noteq> []"
    using str_nat_digits by auto
  have fp: "list_all is_digit (frac4 n)" "length (frac4 n) = 4"
    using frac4_digits by auto
  have val: "real (nat_of_digits (str_nat (n div 10000)))
      + real (nat_of_digits (frac4 n)) / 10 ^ length (frac4 n) = real n / 10000"
    by (simp add: nat_of_digits_str_nat nat_of_digits_frac4 fp(2) real_div_mod)
  have n: "real n = real_of_int (round_half_even (\<bar>x\<bar> * 10000))"
    using round_half_even_nonneg [of "\<bar>x\<bar> * 10000"] by (simp add: n_def)
  show ?thesis
  proof (cases "x < 0")
    case True
    have shape: "fmt4 x = ''-'' @ str_nat (n div 10000) @ ''.'' @ frac4 n"
      by (simp only: fmt4_shape n_def True if_True)
    have "round_half_even (\<bar>x\<bar> * 10000) = - round_half_even (x * 10000)"
      using True round_half_even_minus [of "x * 10000"] by simp
    then have eq: "- (real n / 10000) = round4 x"
      using n by (simp add: round4_def)
    have "py_float (fmt4 x) = Inr (- (real n / 10000))"
      unfolding shape py_float_signed [OF ip fp(1)] val ..
    then show ?thesis using eq by simp
  next
    case False
    have shape: "fmt4 x = str_nat (n div 10000) @ ''.'' @ frac4 n"
      by (simp only: fmt4_shape n_def False if_False append_Nil)
    have eq: "real n / 10000 = round4 x"
      using False n by (simp add: round4_def)
    have "py_float (fmt4 x) = Inr (real n / 10000)"
      unfolding shape py_float_unsigned [OF ip fp(1)] val ..
    then show ?thesis using eq by simp
  qed
qed

lemma digit_is_numch: "is_digit c \<Longrightarrow> is_numch c"
  by (simp add: is_numch_def)

lemma digit_is_numdot: "is_digit c \<Longrightarrow> is_numdot c"
  by (simp add: is_numdot_def)

lemma list_all_mono: "list_all P xs \<Longrightarrow> (\<And>x. P x \<Longrightarrow> Q x) \<Longrightarrow> list_all Q xs"
  by (induction xs) auto

lemma fmt4_numch: "list_all is_numch (fmt4 x) \<and> fmt4 x \<noteq> []"
proof -
  have a: "list_all is_numch (str_nat k)" for k
    using str_nat_digits [of k] list_all_mono digit_is_numch by blast
  have b: "list_all is_numch (frac4 k)" for k
    using frac4_digits [of k] list_all_mono digit_is_numch by blast
  show ?thesis
    by (simp add: fmt4_shape a b is_numch_def)
qed

lemma fmt4_numdot: "0 \<le> x \<Longrightarrow> list_all is_numdot (fmt4 x)"
proof -
  assume x: "0 \<le> x"
  have a: "list_all is_numdot (str_nat k)" for k
    using str_nat_digits [of k] list_all_mono digit_is_numdot by blast
  have b: "list_all is_numdot (frac4 k)" for k
    using frac4_digits [of k] list_all_mono digit_is_numdot by blast
  show ?thesis
    using x by (simp add: fmt4_shape a b is_numdot_def)
qed

lemma take_class_run:
  assumes "list_all P xs" and "xs \<noteq> []" and "ys = [] \<or> \<not> P (hd ys)"
  shows "take_class P (xs @ ys) = Some (xs, ys)"
  using assms takeWhile_all [OF assms(1,3)] dropWhile_all_stop [OF assms(1,3)]
  by (simp add: take_class_def)

lemma not_numch_chars: "\<not> is_numch (CHR '','')" "\<not> is_numch (CHR '':'')"
  by (simp_all add: is_numch_def is_digit_def)

lemma match_vertex_line:
  "match_vertex (str_nat i @ '':'' @ fmt4 x @ '','' @ fmt4 y @ '','' @ fmt4 z)
     = Some (fmt4 x, fmt4 y, fmt4 z)"
proof -
  have i: "take_class is_digit (str_nat i @ '':'' @ fmt4 x @ '','' @ fmt4 y @ '','' @ fmt4 z)
      = Some (str_nat i, '':'' @ fmt4 x @ '','' @ fmt4 y @ '','' @ fmt4 z)"
    using str_nat_digits [of i] by (intro take_class_run) (auto simp: not_digit_chars)
  have g1: "take_class is_numch (fmt4 x @ '','' @ fmt4 y @ '','' @ fmt4 z)
      = Some (fmt4 x, '','' @ fmt4 y @ '','' @ fmt4 z)"
    using fmt4_numch [of x] by (intro take_class_run) (auto simp: not_numch_chars)
  have g2: "take_class is_numch (fmt4 y @ '','' @ fmt4 z) = Some (fmt4 y, '','' @ fmt4 z)"
    using fmt4_numch [of y] by (intro take_class_run) (auto simp: not_numch_chars)
  have g3: "take_class is_numch (fmt4 z) = Some (fmt4 z, [])"
    using fmt4_numch [of z] take_class_run [of is_numch "fmt4 z" "[]"] by simp
  show ?thesis
    unfolding match_vertex_def i by (simp add: g1 [simplified] g2 [simplified] g3 at_end_def)
qed

lemma match_edge_line:
  "match_edge (str_nat i @ '':'' @ str_nat a @ '','' @ str_nat b) = Some (str_nat a, str_nat b)"
proof -
  have i: "take_class is_digit (str_nat i @ '':'' @ str_nat a @ '','' @ str_nat b)
      = Some (str_nat i, '':'' @ str_nat a @ '','' @ str_nat b)"
    using str_nat_digits [of i] by (intro take_class_run) (auto simp: not_digit_chars)
  have g1: "take_class is_digit (str_nat a @ '','' @ str_nat b) = Some (str_nat a, '','' @ str_nat b)"
    using str_nat_digits [of a] by (intro take_class_run) (auto simp: not_digit_chars)
  have g2: "take_class is_digit (str_nat b) = Some (str_nat b, [])"
    using str_nat_digits [of b] take_class_run [of is_digit "str_nat b" "[]"] by simp
  show ?thesis
    unfolding match_edge_def i by (simp add: g1 [simplified] g2 at_end_def)
qed

lemma match_midradius_line: "0 \<le> m \<Longrightarrow> match_midradius (fmt4 m) = Some (fmt4 m)"
  using fmt4_numdot [of m] fmt4_numch [of m] take_class_run [of is_numdot "fmt4 m" "[]"]
  by (simp add: match_midradius_def at_end_def)

lemma py_int_str_nat: "py_int (str_nat n) = Inr (int n)"
  using str_nat_digits [of n] by (simp add: py_int_def nat_of_digits_str_nat)

lemma str_int_nonneg: "0 \<le> a \<Longrightarrow> str_int a = str_nat (nat a)"
  by (simp add: str_int_def)

lemma digit_not_space: "is_digit c \<Longrightarrow> \<not> is_space c"
  by (auto simp: is_digit_def is_space_def)

lemma strip_id:
  assumes "s \<noteq> []" and "\<not> is_space (hd s)" and "\<not> is_space (last s)"
  shows "strip s = s"
proof -
  have a: "dropWhile is_space s = s"
    using assms(1,2) by (cases s) auto
  have b: "dropWhile is_space (rev s) = rev s"
    using assms(1,3) by (cases s rule: rev_cases) auto
  show ?thesis by (simp add: strip_def a b)
qed

lemma digit_line:
  assumes "s \<noteq> []" and "is_digit (hd s)" and "is_digit (last s)"
  shows "strip s = s" and "\<not> startswith s ''VERTICES:''" and "\<not> startswith s ''EDGES:''"
    and "\<not> startswith s ''MIDRADIUS:''"
proof -
  show "strip s = s"
    using assms digit_not_space by (intro strip_id) auto
  have "hd s \<noteq> CHR ''V''" "hd s \<noteq> CHR ''E''" "hd s \<noteq> CHR ''M''"
    using assms(2) by (auto simp: is_digit_def)
  then show "\<not> startswith s ''VERTICES:''" and "\<not> startswith s ''EDGES:''"
    and "\<not> startswith s ''MIDRADIUS:''"
    using assms(1) by (cases s; simp add: startswith_def)+
qed

lemma list_all_hd_last: "list_all P xs \<Longrightarrow> xs \<noteq> [] \<Longrightarrow> P (hd xs) \<and> P (last xs)"
  by (induction xs) auto

lemma str_nat_ends: "is_digit (hd (str_nat n)) \<and> is_digit (last (str_nat n))"
  using str_nat_digits [of n] list_all_hd_last by blast

lemma fmt4_last: "is_digit (last (fmt4 x))"
proof -
  have "frac4 k \<noteq> []" for k by (simp add: frac4_def)
  then have "last (fmt4 x) = last (frac4 (nat (round_half_even (\<bar>x\<bar> * 10000))))"
    by (simp add: fmt4_shape)
  then show ?thesis
    by (simp add: frac4_def is_digit_digit_char)
qed

lemma fmt4_hd: "0 \<le> x \<Longrightarrow> is_digit (hd (fmt4 x))"
  using str_nat_digits [of "nat (round_half_even (\<bar>x\<bar> * 10000)) div 10000"] str_nat_ends
  by (simp add: fmt4_shape hd_append)

lemma vertex_line_ends:
  "vertex_line (i, v) \<noteq> [] \<and> is_digit (hd (vertex_line (i, v)))
   \<and> is_digit (last (vertex_line (i, v)))"
  using str_nat_digits [of i] str_nat_ends [of i] fmt4_numch [of "v ! 2"] fmt4_last [of "v ! 2"]
  by (simp add: vertex_line_def hd_append)

lemma edge_line_ends:
  "0 \<le> b \<Longrightarrow> edge_line (i, (a, b)) \<noteq> [] \<and> is_digit (hd (edge_line (i, (a, b))))
   \<and> is_digit (last (edge_line (i, (a, b))))"
  using str_nat_digits [of i] str_nat_ends [of i] str_nat_digits [of "nat b"] str_nat_ends [of "nat b"]
  by (simp add: edge_line_def hd_append str_int_nonneg)

lemma parse_line_vertex:
  "parse_line (vs, es, mr, Some In_vertices) (vertex_line (i, [x, y, z]))
     = Inr (vs @ [[round4 x, round4 y, round4 z]], es, mr, Some In_vertices)"
proof -
  let ?l = "vertex_line (i, [x, y, z])"
  have m: "match_vertex ?l = Some (fmt4 x, fmt4 y, fmt4 z)"
    using match_vertex_line [of i x y z] by (simp add: vertex_line_def)
  have e: "?l \<noteq> []" "is_digit (hd ?l)" "is_digit (last ?l)"
    using vertex_line_ends by auto
  show ?thesis
    unfolding parse_line_def
    by (simp add: digit_line [OF e] e(1) m py_float_fmt4)
qed

lemma parse_line_edge:
  assumes "0 \<le> a" and "0 \<le> b"
  shows "parse_line (vs, es, mr, Some In_edges) (edge_line (i, (a, b)))
     = Inr (vs, es @ [(a, b)], mr, Some In_edges)"
proof -
  let ?l = "edge_line (i, (a, b))"
  have m: "match_edge ?l = Some (str_nat (nat a), str_nat (nat b))"
    using match_edge_line [of i "nat a" "nat b"] assms
    by (simp add: edge_line_def str_int_nonneg)
  have e: "?l \<noteq> []" "is_digit (hd ?l)" "is_digit (last ?l)"
    using edge_line_ends [OF assms(2)] by auto
  show ?thesis
    unfolding parse_line_def
    using assms by (simp add: digit_line [OF e] e(1) m py_int_str_nat)
qed

lemma parse_line_midradius:
  assumes "0 \<le> m"
  shows "parse_line (vs, es, mr, Some In_midradius) (fmt4 m)
     = Inr (vs, es, Some (round4 m), Some In_midradius)"
proof -
  have e: "fmt4 m \<noteq> []" "is_digit (hd (fmt4 m))" "is_digit (last (fmt4 m))"
    using fmt4_numch [of m] fmt4_hd [OF assms] fmt4_last by auto
  show ?thesis
    unfolding parse_line_def
    by (simp add: digit_line [OF e] e(1) match_midradius_line [OF assms] py_float_fmt4)
qed

lemma parse_line_headers:
  "parse_line (vs, es, mr, sec) ''VERTICES:'' = Inr (vs, es, mr, Some In_vertices)"
  "parse_line (vs, es, mr, sec) ''EDGES:'' = Inr (vs, es, mr, Some In_edges)"
  "parse_line (vs, es, mr, sec) ''MIDRADIUS:'' = Inr (vs, es, mr, Some In_midradius)"
  "parse_line (vs, es, mr, sec) [] = Inr (vs, es, mr, sec)"
  by (simp_all add: parse_line_def strip_def startswith_def is_space_def)

lemma parse_lines_append:
  "parse_lines st xs = Inr st' \<Longrightarrow> parse_lines st (xs @ ys) = parse_lines st' ys"
  by (induction xs arbitrary: st) (auto split: sum.splits)

lemma length3: "length v = 3 \<Longrightarrow> v = [v ! 0, v ! 1, v ! 2]"
  by (cases v; cases "tl v"; cases "tl (tl v)") auto

lemma parse_lines_vertices:
  "\<forall>v\<in>set vs. length v = 3 \<Longrightarrow>
   parse_lines (acc, es, mr, Some In_vertices) (map vertex_line (enumerate k vs))
     = Inr (acc @ map (map round4) vs, es, mr, Some In_vertices)"
proof (induction vs arbitrary: acc k)
  case Nil
  show ?case by simp
next
  case (Cons v vs)
  have v: "v = [v ! 0, v ! 1, v ! 2]" by (rule length3) (use Cons.prems in simp)
  have "parse_line (acc, es, mr, Some In_vertices) (vertex_line (k, v))
          = Inr (acc @ [map round4 v], es, mr, Some In_vertices)"
    using parse_line_vertex [of acc es mr k "v ! 0" "v ! 1" "v ! 2"] v
    by (metis (no_types) list.simps(8,9))
  moreover have "parse_lines (acc @ [map round4 v], es, mr, Some In_vertices)
          (map vertex_line (enumerate (Suc k) vs))
        = Inr ((acc @ [map round4 v]) @ map (map round4) vs, es, mr, Some In_vertices)"
    using Cons.prems by (intro Cons.IH) simp
  ultimately show ?case by simp
qed

lemma parse_lines_edges:
  "\<forall>e\<in>set es. 0 \<le> fst e \<and> 0 \<le> snd e \<Longrightarrow>
   parse_lines (vs, acc, mr, Some In_edges) (map edge_line (enumerate k es))
     = Inr (vs, acc @ es, mr, Some In_edges)"
proof (induction es arbitrary: acc k)
  case Nil
  show ?case by simp
next
  case (Cons e es)
  obtain a b where e: "e = (a, b)" by (cases e)
  have ab: "0 \<le> a" "0 \<le> b" using Cons.prems e by auto
  have "parse_lines (vs, acc @ [e], mr, Some In_edges) (map edge_line (enumerate (Suc k) es))
        = Inr (vs, (acc @ [e]) @ es, mr, Some In_edges)"
    using Cons.prems by (intro Cons.IH) simp
  then show ?case
    by (simp add: e parse_line_edge [OF ab])
qed

lemma split_newline_line: "newline \<notin> set l \<Longrightarrow> split_newline l = [l]"
  by (induction l) auto

lemma split_newline_cons:
  "newline \<notin> set l \<Longrightarrow> split_newline (l @ newline # rest) = l # split_newline rest"
  by (induction l) auto

lemma split_join_newline:
  "ls \<noteq> [] \<Longrightarrow> \<forall>l\<in>set ls. newline \<notin> set l \<Longrightarrow> split_newline (join_newline ls) = ls"
proof (induction ls rule: join_newline.induct)
  case 1
  then show ?case by simp
next
  case (2 l)
  then show ?case by (simp add: split_newline_line)
next
  case (3 l v va)
  then show ?case by (simp add: split_newline_cons)
qed

lemma numch_not_newline: "list_all is_numch s \<Longrightarrow> newline \<notin> set s"
  by (induction s) (auto simp: is_numch_def is_digit_def newline_def)

lemma digits_not_newline: "list_all is_digit s \<Longrightarrow> newline \<notin> set s"
  by (induction s) (auto simp: is_digit_def newline_def)

lemma fmt4_no_newline: "newline \<notin> set (fmt4 x)"
  using fmt4_numch numch_not_newline by blast

lemma str_nat_no_newline: "newline \<notin> set (str_nat n)"
  using str_nat_digits digits_not_newline by blast

lemma vertex_line_no_newline: "newline \<notin> set (vertex_line iv)"
proof -
  obtain i v where iv: "iv = (i, v)" by (cases iv)
  show ?thesis
    using fmt4_no_newline str_nat_no_newline
    by (simp add: iv vertex_line_def newline_def)
qed

lemma str_int_no_newline: "newline \<notin> set (str_int a)"
  using str_nat_no_newline by (simp add: str_int_def newline_def)

lemma edge_line_no_newline: "newline \<notin> set (edge_line ie)"
proof -
  obtain i a b where ie: "ie = (i, (a, b))" by (cases ie) auto
  show ?thesis
    using str_int_no_newline str_nat_no_newline
    by (simp add: ie edge_line_def newline_def)
qed

lemma convert_to_format_lines:
  "\<forall>v\<in>set vs. length v = 3 \<Longrightarrow>
   convert_to_format vs es (Finite m) = Inr (join_newline (record_lines vs es m))"
  by (auto simp: convert_to_format_def record_lines_def Let_def)

lemma record_lines_no_newline: "\<forall>l\<in>set (record_lines vs es m). newline \<notin> set l"
  using vertex_line_no_newline edge_line_no_newline fmt4_no_newline
  by (auto simp: record_lines_def newline_def)

lemma parse_record_lines:
  assumes "\<forall>v\<in>set vs. length v = 3" and "\<forall>e\<in>set es. 0 \<le> fst e \<and> 0 \<le> snd e" and "0 \<le> m"
  shows "parse_lines ([], [], None, None) (record_lines vs es m)
     = Inr (map (map round4) vs, es, Some (round4 m), Some In_midradius)"
proof -
  have a: "parse_lines ([], [], None, Some In_vertices) (map vertex_line (enumerate 0 vs))
      = Inr (map (map round4) vs, [], None, Some In_vertices)"
    using parse_lines_vertices [OF assms(1), of "[]" "[]" None 0] by simp
  have b: "parse_lines (map (map round4) vs, [], None, Some In_edges)
        (map edge_line (enumerate 0 es))
      = Inr (map (map round4) vs, es, None, Some In_edges)"
    using parse_lines_edges [OF assms(2), of "map (map round4) vs" "[]" None 0] by simp
  show ?thesis
    unfolding record_lines_def
    by (simp add: parse_line_headers parse_lines_append [OF a] parse_lines_append [OF b]
        parse_line_midradius [OF assms(3)])
qed

text \<open>
  C4. A record whose vertices have three coordinates, whose edges hold non-negative indices
  and whose midradius is finite and non-negative is encoded by \<open>convert_to_format\<close> without
  error, and \<open>parse_polyhedron_file\<close> decodes the text written to the same vertices with every
  coordinate rounded to 4 decimal digits, the same edge list in the same order, and the
  midradius rounded to 4 decimal digits.
\<close>

theorem convert_parse_roundtrip:
  assumes "\<forall>v\<in>set vs. length v = 3" and "\<forall>e\<in>set es. 0 \<le> fst e \<and> 0 \<le> snd e" and "0 \<le> m"
  shows "\<exists>content. convert_to_format vs es (Finite m) = Inr content
           \<and> parse_polyhedron_file content = Inr (map (map round4) vs, es, Some (round4 m))"
proof -
  have ne: "record_lines vs es m \<noteq> []" by (simp add: record_lines_def)
  have s: "split_newline (join_newline (record_lines vs es m)) = record_lines vs es m"
    using split_join_newline [OF ne record_lines_no_newline] .
  have "parse_polyhedron_file (join_newline (record_lines vs es m))
      = Inr (map (map round4) vs, es, Some (round4 m))"
    by (simp add: parse_polyhedron_file_def s parse_record_lines [OF assms])
  then show ?thesis
    using convert_to_format_lines [OF assms(1)] by blast
qed

theorem convert_parse_roundtrip_witness:
  "convert_to_format [[1 / 2, - 1 / 2, 1 / 3], [0, 1, 1 / 32]] [(0, 1)] (Finite (70711 / 100000))
     = Inr ''VERTICES:\<newline>0:0.5000,-0.5000,0.3333\<newline>1:0.0000,1.0000,0.0312\<newline>\<newline>EDGES:\<newline>0:0,1\<newline>\<newline>MIDRADIUS:\<newline>0.7071''
   \<and> parse_polyhedron_file ''VERTICES:\<newline>0:0.5000,-0.5000,0.3333\<newline>1:0.0000,1.0000,0.0312\<newline>\<newline>EDGES:\<newline>0:0,1\<newline>\<newline>MIDRADIUS:\<newline>0.7071''
     = Inr ([[1 / 2, - 1 / 2, 3333 / 10000], [0, 1, 312 / 10000]], [(0, 1)], Some (7071 / 10000))"
proof -
  let ?vs = "[[1 / 2, - 1 / 2, 1 / 3], [0, 1, 1 / 32]] :: real list list"
  let ?es = "[(0, 1)] :: edge list"
  let ?m = "70711 / 100000 :: real"
  have f: "fmt4 (1 / 2) = ''0.5000''" "fmt4 (- 1 / 2) = ''-0.5000''" "fmt4 (1 / 3) = ''0.3333''"
    "fmt4 0 = ''0.0000''" "fmt4 1 = ''1.0000''" "fmt4 (1 / 32) = ''0.0312''"
    "fmt4 (70711 / 100000) = ''0.7071''"
    by (simp_all add: fmt4_def round_half_even_def str_nat.simps digit_char_def)
  have c: "convert_to_format ?vs ?es (Finite ?m)
     = Inr ''VERTICES:\<newline>0:0.5000,-0.5000,0.3333\<newline>1:0.0000,1.0000,0.0312\<newline>\<newline>EDGES:\<newline>0:0,1\<newline>\<newline>MIDRADIUS:\<newline>0.7071''"
    by (simp add: convert_to_format_def vertex_line_def edge_line_def f [simplified] str_int_def
        str_nat.simps digit_char_def newline_def)
  have h: "\<forall>v\<in>set ?vs. length v = 3" "\<forall>e\<in>set ?es. 0 \<le> fst e \<and> 0 \<le> snd e" "0 \<le> ?m"
    by simp_all
  obtain content where 1: "convert_to_format ?vs ?es (Finite ?m) = Inr content"
    and 2: "parse_polyhedron_file content = Inr (map (map round4) ?vs, ?es, Some (round4 ?m))"
    using convert_parse_roundtrip [OF h] by blast
  have 3: "content = ''VERTICES:\<newline>0:0.5000,-0.5000,0.3333\<newline>1:0.0000,1.0000,0.0312\<newline>\<newline>EDGES:\<newline>0:0,1\<newline>\<newline>MIDRADIUS:\<newline>0.7071''"
    using 1 unfolding c by simp
  have 4: "map (map round4) ?vs = [[1 / 2, - 1 / 2, 3333 / 10000], [0, 1, 312 / 10000]]"
    by (simp add: round4_def round_half_even_def)
  have 5: "round4 ?m = 7071 / 10000"
    by (simp add: round4_def round_half_even_def)
  from c 2 [unfolded 3 4 5] show ?thesis by (rule conjI)
qed
end
